theory Spec2Isabelle
  imports Main
begin

section \<open>The puzzle state of \<open>sudoku_solver.c\<close>\<close>

text \<open>
  The solver keeps one \<open>struct sudoku\<close>: a three-dimensional array of constraint
  counters, a two-dimensional array of committed flags and two counters. The arrays are
  modelled as stores from indices to C \<open>int\<close> values. Indices are naturals;
  \<open>change_state_at\<close>, the only function that writes to the arrays, would read and
  write outside them for a row or column outside \<open>0..N-1\<close>, and the model returns
  \<open>Out_Of_Bounds\<close> there. The \<open>assert\<close>s are compiled in (the build line of the
  source file sets no \<open>NDEBUG\<close>), so a failed assertion ends the run: it is an error
  value of the model. The \<open>int\<close> fields are mathematical integers: the slots of a
  state that satisfies the invariant below lie between 0 and 244 (\<open>slots_bounded\<close>)
  and \<open>ninserted\<close> between 0 and 81, far from the limits of a C \<open>int\<close>, and
  \<open>nbacktracks\<close> is a statistic that no decision of the program reads. The
  allocation of the candidate buffer in \<open>solve\<close> is taken to succeed.
\<close>

definition SQRT_N :: nat where
  "SQRT_N = 3"

definition N :: nat where
  "N = SQRT_N * SQRT_N"

record sudoku =
  constraints :: "nat \<Rightarrow> nat \<Rightarrow> nat \<Rightarrow> int"
  inserted :: "nat \<Rightarrow> nat \<Rightarrow> int"
  ninserted :: int
  nbacktracks :: int

datatype error =
    Assert_Type
  | Assert_Number
  | Assert_Unconstrained
  | Assert_Sweep
  | Out_Of_Bounds
  | Uninitialised

definition new_sudoku :: sudoku where
  "new_sudoku =
     \<lparr>constraints = (\<lambda>i j n. 0), inserted = (\<lambda>i j. 0), ninserted = 0, nbacktracks = 0\<rparr>"

subsection \<open>Commit and retract: \<open>change_state_at\<close>\<close>

text \<open>\<open>s->constraints[row][col][number] += shift\<close>.\<close>

definition add_constraint :: "sudoku \<Rightarrow> nat \<Rightarrow> nat \<Rightarrow> nat \<Rightarrow> int \<Rightarrow> sudoku" where
  "add_constraint s row col number shift =
     s\<lparr>constraints := (constraints s)
          (row := (constraints s row)
             (col := (constraints s row col)
                (number := constraints s row col number + shift)))\<rparr>"

text \<open>The body of the first loop, for one value of \<open>a\<close>: three updates in this order.\<close>

definition sweep_step :: "nat \<Rightarrow> nat \<Rightarrow> nat \<Rightarrow> int \<Rightarrow> nat \<Rightarrow> sudoku \<Rightarrow> sudoku" where
  "sweep_step row col number shift a s =
     add_constraint
       (add_constraint
          (add_constraint s row a number shift)
          a col number shift)
       row col a shift"

definition line_sweep :: "sudoku \<Rightarrow> nat \<Rightarrow> nat \<Rightarrow> nat \<Rightarrow> int \<Rightarrow> sudoku" where
  "line_sweep s row col number shift = fold (sweep_step row col number shift) [0..<N] s"

text \<open>The nested loop over the box of \<open>(row, col)\<close>.\<close>

definition box_sweep :: "sudoku \<Rightarrow> nat \<Rightarrow> nat \<Rightarrow> nat \<Rightarrow> int \<Rightarrow> sudoku" where
  "box_sweep s row col number shift =
     (let sq_row = row div SQRT_N; sq_col = col div SQRT_N
      in fold (\<lambda>i. fold (\<lambda>j s'. add_constraint s' (SQRT_N * sq_row + i) (SQRT_N * sq_col + j)
                                   number shift) [0..<SQRT_N])
           [0..<SQRT_N] s)"

text \<open>The state when the last assertion of \<open>change_state_at\<close> is evaluated.\<close>

definition sweeps :: "sudoku \<Rightarrow> nat \<Rightarrow> nat \<Rightarrow> nat \<Rightarrow> int \<Rightarrow> sudoku" where
  "sweeps s row col number type =
     box_sweep
       (line_sweep
          (s\<lparr>inserted := (inserted s)
               (row := (inserted s row)(col := (if type = - 1 then 0 else 1)))\<rparr>)
          row col number type)
       row col number type"

definition change_state_at :: "sudoku \<Rightarrow> nat \<Rightarrow> nat \<Rightarrow> nat \<Rightarrow> int \<Rightarrow> error + sudoku" where
  "change_state_at s row col number type =
     (if \<not> (type = - 1 \<or> type = 1) then Inl Assert_Type
      else if \<not> number < N then Inl Assert_Number
      else if \<not> (row < N \<and> col < N) then Inl Out_Of_Bounds
      else if constraints s row col number \<noteq> 0 then Inl Assert_Unconstrained
      else
        let s' = sweeps s row col number type
        in if constraints s' row col number \<noteq> type * 4 then Inl Assert_Sweep
           else Inr (s'\<lparr>constraints := (constraints s')
                          (row := (constraints s' row)
                             (col := (constraints s' row col)(number := 0))),
                        ninserted := ninserted s' + type\<rparr>))"

definition insert_number_at :: "sudoku \<Rightarrow> nat \<Rightarrow> nat \<Rightarrow> nat \<Rightarrow> error + sudoku" where
  "insert_number_at s row col number = change_state_at s row col number 1"

definition remove_number_at :: "sudoku \<Rightarrow> nat \<Rightarrow> nat \<Rightarrow> nat \<Rightarrow> error + sudoku" where
  "remove_number_at s row col number = change_state_at s row col number (- 1)"

subsection \<open>Candidate query and cell selection\<close>

text \<open>
  \<open>get_possibilities_at\<close> fills the buffer from index 0 and counts; the model returns
  the filled prefix, whose length is \<open>*poss_counter\<close>.
\<close>

definition get_possibilities_at :: "sudoku \<Rightarrow> nat \<Rightarrow> nat \<Rightarrow> nat list" where
  "get_possibilities_at s row col =
     fold (\<lambda>n possibilities.
             if constraints s row col n = 0 then possibilities @ [n] else possibilities)
       [0..<N] []"

text \<open>
  The scan of \<open>get_most_constrained_cell\<close> carries \<open>min\<close> and the pair
  \<open>(*row, *col)\<close>, which the caller leaves uninitialised: \<open>None\<close> until the first
  assignment.
\<close>

definition scan_cell :: "sudoku \<Rightarrow> nat \<Rightarrow> nat \<Rightarrow> nat \<times> (nat \<times> nat) option \<Rightarrow> nat \<times> (nat \<times> nat) option" where
  "scan_cell s i j acc =
     (if inserted s i j = 0 then
        (let poss_count = length (get_possibilities_at s i j)
         in if poss_count < fst acc then (poss_count, Some (i, j)) else acc)
      else acc)"

definition scan_cells :: "sudoku \<Rightarrow> nat \<times> (nat \<times> nat) option" where
  "scan_cells s = fold (\<lambda>i. fold (\<lambda>j. scan_cell s i j) [0..<N]) [0..<N] (N + 1, None)"

definition get_most_constrained_cell :: "sudoku \<Rightarrow> error + (nat \<times> nat \<times> nat list)" where
  "get_most_constrained_cell s =
     (case snd (scan_cells s) of
        None \<Rightarrow> Inl Uninitialised
      | Some (row, col) \<Rightarrow> Inr (row, col, get_possibilities_at s row col))"

subsection \<open>Backtracking search: \<open>solve\<close>\<close>

text \<open>
  The \<open>for\<close> loop of \<open>solve\<close> over the candidates not yet tried. \<open>rec\<close> is the
  recursive call; it answers \<open>None\<close> when the recursion is cut off. The loop starts
  with \<open>found_solution = 0\<close> and is entered only with at least one candidate.
\<close>

fun try_candidates ::
  "(sudoku \<Rightarrow> (error + int \<times> sudoku) option) \<Rightarrow> sudoku \<Rightarrow> nat \<Rightarrow> nat \<Rightarrow> nat list \<Rightarrow>
     (error + int \<times> sudoku) option" where
  "try_candidates rec s row col [] = Some (Inr (0, s))"
| "try_candidates rec s row col (p # ps) =
     (case insert_number_at s row col p of
        Inl e \<Rightarrow> Some (Inl e)
      | Inr s1 \<Rightarrow>
          (case rec s1 of
             None \<Rightarrow> None
           | Some (Inl e) \<Rightarrow> Some (Inl e)
           | Some (Inr (found_solution, s2)) \<Rightarrow>
               if found_solution \<noteq> 0 then Some (Inr (found_solution, s2))
               else
                 (case remove_number_at s2 row col p of
                    Inl e \<Rightarrow> Some (Inl e)
                  | Inr s3 \<Rightarrow> try_candidates rec s3 row col ps)))"

definition solve_body ::
  "(sudoku \<Rightarrow> (error + int \<times> sudoku) option) \<Rightarrow> sudoku \<Rightarrow> (error + int \<times> sudoku) option" where
  "solve_body rec s =
     (if ninserted s = int (N * N) then Some (Inr (1, s))
      else
        (case get_most_constrained_cell s of
           Inl e \<Rightarrow> Some (Inl e)
         | Inr (row, col, possibilities) \<Rightarrow>
             if length possibilities = 0
             then Some (Inr (0, s\<lparr>nbacktracks := nbacktracks s + 1\<rparr>))
             else try_candidates rec s row col possibilities))"

text \<open>
  \<open>solve depth s\<close> runs \<open>solve\<close> with at most \<open>depth\<close> nested recursive calls
  below the outermost one; \<open>None\<close> means that a deeper call was needed.
\<close>

primrec solve :: "nat \<Rightarrow> sudoku \<Rightarrow> (error + int \<times> sudoku) option" where
  "solve 0 s = solve_body (\<lambda>s'. None) s"
| "solve (Suc depth) s = solve_body (solve depth) s"


section \<open>What the sweeps add\<close>

text \<open>
  \<open>step_hits a\<close> counts the updates that one iteration of the first loop applies to the
  slot \<open>(r, c, n)\<close>, \<open>line_hits k\<close> those of its first \<open>k\<close> iterations, \<open>box_hits\<close>
  those of the nested loop, and \<open>hits\<close> those of both loops together.
\<close>

definition step_hits :: "nat \<Rightarrow> nat \<Rightarrow> nat \<Rightarrow> nat \<Rightarrow> nat \<Rightarrow> nat \<Rightarrow> nat \<Rightarrow> int" where
  "step_hits a row col number r c n =
     (if r = row \<and> c = a \<and> n = number then 1 else 0)
       + (if r = a \<and> c = col \<and> n = number then 1 else 0)
       + (if r = row \<and> c = col \<and> n = a then 1 else 0)"

definition line_hits :: "nat \<Rightarrow> nat \<Rightarrow> nat \<Rightarrow> nat \<Rightarrow> nat \<Rightarrow> nat \<Rightarrow> nat \<Rightarrow> int" where
  "line_hits k row col number r c n =
     (if r = row \<and> c < k \<and> n = number then 1 else 0)
       + (if r < k \<and> c = col \<and> n = number then 1 else 0)
       + (if r = row \<and> c = col \<and> n < k then 1 else 0)"

definition box_hits :: "nat \<Rightarrow> nat \<Rightarrow> nat \<Rightarrow> nat \<Rightarrow> nat \<Rightarrow> nat \<Rightarrow> int" where
  "box_hits row col number r c n =
     (if r div 3 = row div 3 \<and> c div 3 = col div 3 \<and> n = number then 1 else 0)"

definition hits :: "nat \<Rightarrow> nat \<Rightarrow> nat \<Rightarrow> nat \<Rightarrow> nat \<Rightarrow> nat \<Rightarrow> int" where
  "hits row col number r c n =
     line_hits 9 row col number r c n + box_hits row col number r c n"

text \<open>
  What a commit of \<open>number\<close> at \<open>(row, col)\<close> leaves in the slot \<open>(r, c, n)\<close>: the
  hits of the sweeps, except in the slot of the commit itself, which is reset.
\<close>

definition contrib :: "nat \<Rightarrow> nat \<Rightarrow> nat \<Rightarrow> nat \<Rightarrow> nat \<Rightarrow> nat \<Rightarrow> int" where
  "contrib row col number r c n =
     (if r = row \<and> c = col \<and> n = number then 0 else hits row col number r c n)"

section \<open>Grids, reachable states and the invariant\<close>

text \<open>
  The state does not store the value committed at a cell. A grid records it: the
  partial assignment that a sequence of commits and retracts has built.
\<close>

type_synonym grid = "nat \<times> nat \<Rightarrow> nat option"

definition cells :: "(nat \<times> nat) list" where
  "cells = List.product [0..<N] [0..<N]"

definition same_box :: "nat \<times> nat \<Rightarrow> nat \<times> nat \<Rightarrow> bool" where
  "same_box p q \<longleftrightarrow>
     fst p div SQRT_N = fst q div SQRT_N \<and> snd p div SQRT_N = snd q div SQRT_N"

definition peer :: "nat \<times> nat \<Rightarrow> nat \<times> nat \<Rightarrow> bool" where
  "peer p q \<longleftrightarrow> p \<noteq> q \<and> (fst p = fst q \<or> snd p = snd q \<or> same_box p q)"

text \<open>
  \<open>reach g s\<close>: the state \<open>s\<close> is built from the empty state by valid commits and
  retracts, and \<open>g\<close> is the assignment they leave. A commit is valid on an uncommitted
  cell whose slot for the value is zero; a retract takes back a value committed before
  and not yet retracted. \<open>commits g s\<close> is the same with commits only.
\<close>

inductive reach :: "grid \<Rightarrow> sudoku \<Rightarrow> bool" where
  reach_new: "reach (\<lambda>p. None) new_sudoku"
| reach_commit:
    "reach g s \<Longrightarrow> row < N \<Longrightarrow> col < N \<Longrightarrow> number < N \<Longrightarrow> inserted s row col = 0 \<Longrightarrow>
     constraints s row col number = 0 \<Longrightarrow> insert_number_at s row col number = Inr s' \<Longrightarrow>
     reach (g((row, col) \<mapsto> number)) s'"
| reach_retract:
    "reach g s \<Longrightarrow> g (row, col) = Some number \<Longrightarrow>
     remove_number_at s row col number = Inr s' \<Longrightarrow>
     reach (g((row, col) := None)) s'"

inductive commits :: "grid \<Rightarrow> sudoku \<Rightarrow> bool" where
  commits_new: "commits (\<lambda>p. None) new_sudoku"
| commits_commit:
    "commits g s \<Longrightarrow> row < N \<Longrightarrow> col < N \<Longrightarrow> number < N \<Longrightarrow> inserted s row col = 0 \<Longrightarrow>
     constraints s row col number = 0 \<Longrightarrow> insert_number_at s row col number = Inr s' \<Longrightarrow>
     commits (g((row, col) \<mapsto> number)) s'"

text \<open>
  A solved grid gives every cell a value below \<open>N\<close>, and every row, every column and
  every box holds each value exactly once. The values \<open>0..8\<close> stand for the digits
  \<open>1..9\<close>.
\<close>

definition holds_once :: "grid \<Rightarrow> (nat \<times> nat) list \<Rightarrow> bool" where
  "holds_once h ps \<longleftrightarrow> list_all (\<lambda>v. length (filter (\<lambda>p. h p = Some v) ps) = 1) [0..<N]"

definition row_cells :: "nat \<Rightarrow> (nat \<times> nat) list" where
  "row_cells r = map (\<lambda>c. (r, c)) [0..<N]"

definition col_cells :: "nat \<Rightarrow> (nat \<times> nat) list" where
  "col_cells c = map (\<lambda>r. (r, c)) [0..<N]"

definition box_cells :: "nat \<Rightarrow> nat \<Rightarrow> (nat \<times> nat) list" where
  "box_cells br bc =
     List.product (map (\<lambda>i. SQRT_N * br + i) [0..<SQRT_N]) (map (\<lambda>j. SQRT_N * bc + j) [0..<SQRT_N])"

definition filled :: "grid \<Rightarrow> bool" where
  "filled h \<longleftrightarrow> list_all (\<lambda>p. case h p of None \<Rightarrow> False | Some v \<Rightarrow> v < N) cells"

definition solved_grid :: "grid \<Rightarrow> bool" where
  "solved_grid h \<longleftrightarrow>
     filled h
     \<and> list_all (\<lambda>r. holds_once h (row_cells r)) [0..<N]
     \<and> list_all (\<lambda>c. holds_once h (col_cells c)) [0..<N]
     \<and> list_all (\<lambda>br. list_all (\<lambda>bc. holds_once h (box_cells br bc)) [0..<SQRT_N]) [0..<SQRT_N]"

definition completion :: "grid \<Rightarrow> grid \<Rightarrow> bool" where
  "completion g h \<longleftrightarrow> g \<subseteq>\<^sub>m h \<and> solved_grid h"

text \<open>
  What \<open>print\<close> shows for a cell in \<open>VALUE\<close> mode: the digit of
  \<open>possibilities[0]\<close> when \<open>poss_count == 1\<close>, and a star otherwise.
\<close>

definition shown_value :: "sudoku \<Rightarrow> nat \<Rightarrow> nat \<Rightarrow> nat option" where
  "shown_value s i j =
     (let possibilities = get_possibilities_at s i j
      in if length possibilities = 1 then Some (possibilities ! 0) else None)"

definition shown_grid :: "sudoku \<Rightarrow> grid" where
  "shown_grid s = (\<lambda>(i, j). shown_value s i j)"

text \<open>
  The invariant that ties a state to its grid: the flags and \<open>ninserted\<close> follow the
  grid, no two peers hold the same value, and every slot is the sum of what the
  committed cells contribute to it.
\<close>

definition cell_contrib :: "grid \<Rightarrow> nat \<Rightarrow> nat \<Rightarrow> nat \<Rightarrow> nat \<times> nat \<Rightarrow> int" where
  "cell_contrib g r c n p =
     (case g p of None \<Rightarrow> 0 | Some v \<Rightarrow> contrib (fst p) (snd p) v r c n)"

definition wf_grid :: "grid \<Rightarrow> bool" where
  "wf_grid g \<longleftrightarrow> (\<forall>p v. g p = Some v \<longrightarrow> p \<in> set cells \<and> v < N)"

definition consistent :: "grid \<Rightarrow> bool" where
  "consistent g \<longleftrightarrow> (\<forall>p q v. g p = Some v \<longrightarrow> g q = Some v \<longrightarrow> \<not> peer p q)"

definition invariant :: "grid \<Rightarrow> sudoku \<Rightarrow> bool" where
  "invariant g s \<longleftrightarrow>
     wf_grid g \<and> consistent g
     \<and> (\<forall>p \<in> set cells. inserted s (fst p) (snd p) = (if g p = None then 0 else 1))
     \<and> ninserted s = int (card (dom g))
     \<and> (\<forall>p \<in> set cells. \<forall>n < N.
           constraints s (fst p) (snd p) n = sum (cell_contrib g (fst p) (snd p) n) (set cells))"

text \<open>
  Row-major scan order of the cells, and what the scan of
  \<open>get_most_constrained_cell\<close> has established after the cells of a set \<open>S\<close>:
  either no cell of \<open>S\<close> is uncommitted and \<open>min\<close> is still \<open>N + 1\<close>, or the
  pair holds an uncommitted cell of \<open>S\<close> whose count is \<open>min\<close>, no uncommitted cell
  of \<open>S\<close> has a smaller count, and none with the same count comes earlier.
\<close>

definition scanned_before :: "nat \<times> nat \<Rightarrow> nat \<times> nat \<Rightarrow> bool" where
  "scanned_before p q \<longleftrightarrow> fst p < fst q \<or> (fst p = fst q \<and> snd p < snd q)"

definition poss_count_at :: "sudoku \<Rightarrow> nat \<times> nat \<Rightarrow> nat" where
  "poss_count_at s p = length (get_possibilities_at s (fst p) (snd p))"

definition uncommitted :: "sudoku \<Rightarrow> nat \<times> nat \<Rightarrow> bool" where
  "uncommitted s p \<longleftrightarrow> inserted s (fst p) (snd p) = 0"

definition scan_ok :: "sudoku \<Rightarrow> (nat \<times> nat) set \<Rightarrow> nat \<times> (nat \<times> nat) option \<Rightarrow> bool" where
  "scan_ok s S acc \<longleftrightarrow>
     (case snd acc of
        None \<Rightarrow> fst acc = N + 1 \<and> (\<forall>q \<in> S. \<not> uncommitted s q)
      | Some p \<Rightarrow>
          p \<in> S \<and> uncommitted s p \<and> fst acc = poss_count_at s p
          \<and> (\<forall>q \<in> S. uncommitted s q \<longrightarrow>
                 poss_count_at s p \<le> poss_count_at s q
                 \<and> (poss_count_at s q = poss_count_at s p \<longrightarrow> p = q \<or> scanned_before p q)))"

text \<open>
  What a call of \<open>solve\<close> owes on a state that satisfies the invariant for \<open>g\<close>: it
  returns, without a failed assertion; with 1 the state then stands for a full grid that
  extends \<open>g\<close>; with 0 the state differs from the one at entry in \<open>nbacktracks\<close> at
  most, and \<open>g\<close> has no completion.
\<close>

definition outcome_ok :: "grid \<Rightarrow> sudoku \<Rightarrow> (error + int \<times> sudoku) option \<Rightarrow> bool" where
  "outcome_ok g s res \<longleftrightarrow>
     (\<exists>b s'. res = Some (Inr (b, s'))
        \<and> ((b = 1 \<and> (\<exists>h. invariant h s' \<and> g \<subseteq>\<^sub>m h \<and> (\<forall>p \<in> set cells. h p \<noteq> None)))
           \<or> (b = 0 \<and> (\<exists>k. s' = s\<lparr>nbacktracks := k\<rparr>) \<and> \<not> (\<exists>h. completion g h))))"

text \<open>
  Concrete grids and states for the examples: a solved grid, a grid on which the search
  must commit, fail and retract (the first seven cells of row 0 hold \<open>0..6\<close> and the
  cell \<open>(1, 7)\<close> holds \<open>8\<close>, so that \<open>(0, 7)\<close> and \<open>(0, 8)\<close> both need \<open>7\<close>),
  and the state after one commit of \<open>0\<close> at \<open>(0, 0)\<close>.
\<close>

definition example_grid :: grid where
  "example_grid = (\<lambda>p. Some ((3 * (fst p mod 3) + fst p div 3 + snd p) mod 9))"

definition row_prefix_grid :: "nat \<Rightarrow> grid" where
  "row_prefix_grid k = (\<lambda>p. if fst p = 0 \<and> snd p < k then Some (snd p) else None)"

definition backtrack_grid :: grid where
  "backtrack_grid = (row_prefix_grid 7)((1, 7) \<mapsto> 8)"

definition first_commit_grid :: grid where
  "first_commit_grid = (\<lambda>p. if p = (0, 0) then Some 0 else None)"

definition after_first_commit :: sudoku where
  "after_first_commit =
     (case insert_number_at new_sudoku 0 0 0 of Inl e \<Rightarrow> new_sudoku | Inr s \<Rightarrow> s)"

text \<open>
  The committed cells other than \<open>(row, col)\<close> that hold \<open>v\<close> and satisfy \<open>P\<close>, and
  the committed peers of \<open>(row, col)\<close> that hold \<open>v\<close>.
\<close>

definition holders :: "grid \<Rightarrow> nat \<Rightarrow> nat \<Rightarrow> nat \<Rightarrow> (nat \<times> nat \<Rightarrow> bool) \<Rightarrow> (nat \<times> nat) list" where
  "holders g row col v P = filter (\<lambda>q. q \<noteq> (row, col) \<and> P q \<and> g q = Some v) cells"

definition peers_holding :: "grid \<Rightarrow> nat \<Rightarrow> nat \<Rightarrow> nat \<Rightarrow> (nat \<times> nat) list" where
  "peers_holding g row col v = filter (\<lambda>q. peer (row, col) q \<and> g q = Some v) cells"

section \<open>Auxiliary facts\<close>

lemma SQRT_N_eq [simp]: "SQRT_N = 3"
  by (simp add: SQRT_N_def)

lemma N_eq [simp]: "N = 9"
  by (simp add: N_def)

lemma add_constraint_fields [simp]:
  "inserted (add_constraint s row col number d) = inserted s"
  "ninserted (add_constraint s row col number d) = ninserted s"
  "nbacktracks (add_constraint s row col number d) = nbacktracks s"
  by (simp_all add: add_constraint_def)

lemma constraints_add_constraint:
  "constraints (add_constraint s row col number d) r c n =
     constraints s r c n + (if r = row \<and> c = col \<and> n = number then d else 0)"
  by (simp add: add_constraint_def)

lemma mult_if_one: "d * (if P then 1 else 0) = (if P then d else (0::int))"
  by simp

lemma sweep_step_constraints:
  "constraints (sweep_step row col number d a s) r c n =
     constraints s r c n + d * step_hits a row col number r c n"
  by (simp only: sweep_step_def constraints_add_constraint step_hits_def distrib_left
        mult_if_one add.assoc)

lemma sweep_step_fields [simp]:
  "inserted (sweep_step row col number d a s) = inserted s"
  "ninserted (sweep_step row col number d a s) = ninserted s"
  "nbacktracks (sweep_step row col number d a s) = nbacktracks s"
  by (simp_all add: sweep_step_def)

lemma if_less_Suc:
  "(if A \<and> c < Suc k \<and> B then 1 else 0) =
     (if A \<and> c < k \<and> B then 1 else 0) + (if A \<and> c = k \<and> B then 1 else (0::int))"
  by (cases "c < k"; cases "c = k") (simp_all add: less_Suc_eq)

lemma line_hits_Suc:
  "line_hits (Suc k) row col number r c n =
     line_hits k row col number r c n + step_hits k row col number r c n"
proof -
  have row_part:
    "(if r = row \<and> c < Suc k \<and> n = number then 1 else 0) =
       (if r = row \<and> c < k \<and> n = number then 1 else 0)
         + (if r = row \<and> c = k \<and> n = number then 1 else (0::int))"
    by (rule if_less_Suc)
  have col_part:
    "(if r < Suc k \<and> c = col \<and> n = number then 1 else 0) =
       (if r < k \<and> c = col \<and> n = number then 1 else 0)
         + (if r = k \<and> c = col \<and> n = number then 1 else (0::int))"
    using if_less_Suc [of True r k "c = col \<and> n = number"] by simp
  have cell_part:
    "(if r = row \<and> c = col \<and> n < Suc k then 1 else 0) =
       (if r = row \<and> c = col \<and> n < k then 1 else 0)
         + (if r = row \<and> c = col \<and> n = k then 1 else (0::int))"
    using if_less_Suc [of "r = row \<and> c = col" n k True] by simp
  show ?thesis
    unfolding line_hits_def step_hits_def row_part col_part cell_part
    by (simp only: ac_simps)
qed

lemma fold_sweep_step_fields [simp]:
  "inserted (fold (sweep_step row col number d) xs s) = inserted s"
  "ninserted (fold (sweep_step row col number d) xs s) = ninserted s"
  "nbacktracks (fold (sweep_step row col number d) xs s) = nbacktracks s"
  by (induction xs arbitrary: s) simp_all

lemma fold_sweep_step_constraints:
  "constraints (fold (sweep_step row col number d) [0..<k] s) r c n =
     constraints s r c n + d * line_hits k row col number r c n"
proof (induction k)
  case 0
  show ?case by (simp add: line_hits_def)
next
  case (Suc k)
  show ?case
    by (simp add: Suc sweep_step_constraints line_hits_Suc distrib_left)
qed

lemma line_sweep_constraints:
  "constraints (line_sweep s row col number d) r c n =
     constraints s r c n + d * line_hits 9 row col number r c n"
  by (simp add: line_sweep_def fold_sweep_step_constraints)

lemma line_sweep_fields [simp]:
  "inserted (line_sweep s row col number d) = inserted s"
  "ninserted (line_sweep s row col number d) = ninserted s"
  "nbacktracks (line_sweep s row col number d) = nbacktracks s"
  by (simp_all add: line_sweep_def)

lemma fold_add_fields [simp]:
  "inserted (fold (\<lambda>j s'. add_constraint s' (f j) (g j) number d) xs s) = inserted s"
  "ninserted (fold (\<lambda>j s'. add_constraint s' (f j) (g j) number d) xs s) = ninserted s"
  "nbacktracks (fold (\<lambda>j s'. add_constraint s' (f j) (g j) number d) xs s) = nbacktracks s"
  by (induction xs arbitrary: s) simp_all

lemma fold_box_fields [simp]:
  "inserted (fold (\<lambda>i. fold (\<lambda>j s'. add_constraint s' (f i) (g j) number d) ys) xs s)
     = inserted s"
  "ninserted (fold (\<lambda>i. fold (\<lambda>j s'. add_constraint s' (f i) (g j) number d) ys) xs s)
     = ninserted s"
  "nbacktracks (fold (\<lambda>i. fold (\<lambda>j s'. add_constraint s' (f i) (g j) number d) ys) xs s)
     = nbacktracks s"
  by (induction xs arbitrary: s) simp_all

lemma if_range_Suc:
  "(if A \<and> C \<le> c \<and> c < C + Suc k \<and> B then d else 0) =
     (if A \<and> C \<le> c \<and> c < C + k \<and> B then d else 0)
       + (if A \<and> c = C + k \<and> B then d else (0::int))"
  by (cases "c < C + k"; cases "c = C + k") (simp_all add: less_Suc_eq)

lemma fold_box_row_constraints:
  "constraints (fold (\<lambda>j s'. add_constraint s' R (C + j) number d) [0..<k] s) r c n =
     constraints s r c n + (if r = R \<and> C \<le> c \<and> c < C + k \<and> n = number then d else 0)"
proof (induction k)
  case 0
  show ?case by simp
next
  case (Suc k)
  have "constraints (fold (\<lambda>j s'. add_constraint s' R (C + j) number d) [0..<Suc k] s) r c n =
          constraints s r c n
            + (if r = R \<and> C \<le> c \<and> c < C + k \<and> n = number then d else 0)
            + (if r = R \<and> c = C + k \<and> n = number then d else 0)"
    by (simp only: upt_Suc_append [OF le0] fold_append fold.simps o_apply id_apply
          constraints_add_constraint Suc)
  then show ?case
    by (simp only: if_range_Suc [of "r = R" C c k "n = number" d] add.assoc)
qed

lemma fold_box_constraints:
  "constraints (fold (\<lambda>i. fold (\<lambda>j s'. add_constraint s' (R + i) (C + j) number d) [0..<k])
                  [0..<m] s) r c n =
     constraints s r c n
       + (if (C \<le> c \<and> c < C + k) \<and> R \<le> r \<and> r < R + m \<and> n = number then d else 0)"
proof (induction m)
  case 0
  show ?case by simp
next
  case (Suc m)
  have "constraints (fold (\<lambda>i. fold (\<lambda>j s'. add_constraint s' (R + i) (C + j) number d) [0..<k])
                  [0..<Suc m] s) r c n =
          constraints s r c n
            + (if (C \<le> c \<and> c < C + k) \<and> R \<le> r \<and> r < R + m \<and> n = number then d else 0)
            + (if r = R + m \<and> C \<le> c \<and> c < C + k \<and> n = number then d else 0)"
    by (simp only: upt_Suc_append [OF le0] fold_append fold.simps o_apply id_apply
          fold_box_row_constraints Suc)
  also have "(if r = R + m \<and> C \<le> c \<and> c < C + k \<and> n = number then d else 0) =
               (if (C \<le> c \<and> c < C + k) \<and> r = R + m \<and> n = number then d else 0)"
    by (rule if_cong) auto
  finally show ?case
    by (simp only: if_range_Suc [of "C \<le> c \<and> c < C + k" R r m "n = number" d] add.assoc)
qed

lemma in_box_iff:
  "3 * (row div 3) \<le> r \<and> r < 3 * (row div 3) + 3 \<longleftrightarrow> r div 3 = row div (3::nat)"
proof
  assume "3 * (row div 3) \<le> r \<and> r < 3 * (row div 3) + 3"
  then show "r div 3 = row div 3"
    by (intro div_nat_eqI) simp_all
next
  assume same: "r div 3 = row div 3"
  have "r = 3 * (r div 3) + r mod 3"
    by simp
  moreover have "r mod 3 < 3"
    by simp
  ultimately have "3 * (r div 3) \<le> r \<and> r < 3 * (r div 3) + 3"
    by linarith
  then show "3 * (row div 3) \<le> r \<and> r < 3 * (row div 3) + 3"
    by (simp only: same)
qed

lemma box_sweep_constraints:
  "constraints (box_sweep s row col number d) r c n =
     constraints s r c n + d * box_hits row col number r c n"
proof -
  have "((3 * (col div 3) \<le> c \<and> c < 3 * (col div 3) + 3) \<and>
         3 * (row div 3) \<le> r \<and> r < 3 * (row div 3) + 3 \<and> n = number)
        = (r div 3 = row div 3 \<and> c div 3 = col div 3 \<and> n = number)"
    using in_box_iff [of row r] in_box_iff [of col c] by blast
  then show ?thesis
    by (simp only: box_sweep_def Let_def SQRT_N_eq fold_box_constraints box_hits_def
          mult_if_one)
qed

lemma box_sweep_fields [simp]:
  "inserted (box_sweep s row col number d) = inserted s"
  "ninserted (box_sweep s row col number d) = ninserted s"
  "nbacktracks (box_sweep s row col number d) = nbacktracks s"
  by (simp_all add: box_sweep_def)

lemma sweeps_constraints:
  "constraints (sweeps s row col number d) r c n =
     constraints s r c n + d * hits row col number r c n"
  by (simp add: sweeps_def box_sweep_constraints line_sweep_constraints hits_def distrib_left)

lemma sweeps_fields [simp]:
  "inserted (sweeps s row col number d) =
     (inserted s)(row := (inserted s row)(col := (if d = - 1 then 0 else 1)))"
  "ninserted (sweeps s row col number d) = ninserted s"
  "nbacktracks (sweeps s row col number d) = nbacktracks s"
  by (simp_all add: sweeps_def)

lemma hits_self:
  "row < 9 \<Longrightarrow> col < 9 \<Longrightarrow> number < 9 \<Longrightarrow> hits row col number row col number = 4"
  by (simp add: hits_def line_hits_def box_hits_def)

lemma contrib_self [simp]: "contrib row col number row col number = 0"
  by (simp add: contrib_def)

lemma change_state_at_result:
  assumes "d = 1 \<or> d = - 1" and "row < 9" and "col < 9" and "number < 9"
    and "constraints s row col number = 0"
  shows "\<exists>s'. change_state_at s row col number d = Inr s'
           \<and> (\<forall>r c n. constraints s' r c n = constraints s r c n + d * contrib row col number r c n)
           \<and> inserted s' = (inserted s)(row := (inserted s row)(col := (if d = - 1 then 0 else 1)))
           \<and> ninserted s' = ninserted s + d
           \<and> nbacktracks s' = nbacktracks s"
proof -
  let ?s' = "sweeps s row col number d"
  let ?r = "?s'\<lparr>constraints := (constraints ?s')
                   (row := (constraints ?s' row)(col := (constraints ?s' row col)(number := 0))),
                 ninserted := ninserted ?s' + d\<rparr>"
  have slot: "constraints ?s' row col number = d * 4"
    using assms by (simp add: sweeps_constraints hits_self)
  have res: "change_state_at s row col number d = Inr ?r"
    using assms slot by (auto simp add: change_state_at_def Let_def)
  have "constraints ?r r c n = constraints s r c n + d * contrib row col number r c n" for r c n
  proof (cases "r = row \<and> c = col \<and> n = number")
    case True
    then show ?thesis using assms(5) by simp
  next
    case False
    then have "constraints ?r r c n = constraints ?s' r c n"
      by auto
    with False show ?thesis
      by (simp only: sweeps_constraints contrib_def if_False)
  qed
  then show ?thesis
    using res by simp
qed

lemma insert_remove_restores:
  assumes "row < 9" and "col < 9" and "number < 9"
    and "inserted s row col = 0" and "constraints s row col number = 0"
    and "insert_number_at s row col number = Inr s1"
  shows "remove_number_at (s1\<lparr>nbacktracks := k\<rparr>) row col number = Inr (s\<lparr>nbacktracks := k\<rparr>)"
proof -
  obtain t where t: "change_state_at s row col number 1 = Inr t"
      "\<forall>r c n. constraints t r c n = constraints s r c n + 1 * contrib row col number r c n"
      "inserted t = (inserted s)(row := (inserted s row)(col := (if (1::int) = - 1 then 0 else 1)))"
      "ninserted t = ninserted s + 1" "nbacktracks t = nbacktracks s"
    using change_state_at_result [of 1 row col number s] assms by blast
  have s1: "s1 = t"
    using t(1) assms(6) by (simp add: insert_number_at_def)
  let ?s1 = "s1\<lparr>nbacktracks := k\<rparr>"
  have zero: "constraints ?s1 row col number = 0"
    using t(2) assms(5) s1 by simp
  obtain u where u: "change_state_at ?s1 row col number (- 1) = Inr u"
      "\<forall>r c n. constraints u r c n = constraints ?s1 r c n + (- 1) * contrib row col number r c n"
      "inserted u = (inserted ?s1)(row := (inserted ?s1 row)(col := (if (- 1::int) = - 1 then 0 else 1)))"
      "ninserted u = ninserted ?s1 + (- 1)" "nbacktracks u = nbacktracks ?s1"
    using change_state_at_result [of "- 1" row col number ?s1] assms(1-3) zero by blast
  have "constraints u = constraints s"
    using u(2) t(2) s1 by (simp add: fun_eq_iff)
  moreover have "inserted u = inserted s"
    using u(3) t(3) s1 assms(4) by (auto simp add: fun_eq_iff)
  moreover have "ninserted u = ninserted s"
    using u(4) t(4) s1 by simp
  moreover have "nbacktracks u = k"
    using u(5) by simp
  ultimately have "u = s\<lparr>nbacktracks := k\<rparr>"
    by (intro sudoku.equality) simp_all
  with u(1) show ?thesis
    by (simp add: remove_number_at_def)
qed

lemma in_cells [simp]: "p \<in> set cells \<longleftrightarrow> fst p < 9 \<and> snd p < 9"
  by (cases p) (simp add: cells_def)

lemma distinct_cells: "distinct cells"
  by (simp add: cells_def distinct_product)

lemma peer_sym: "peer p q \<longleftrightarrow> peer q p"
  by (auto simp add: peer_def same_box_def)

lemma contrib_nonneg: "0 \<le> contrib row col number r c n"
  by (simp add: contrib_def hits_def line_hits_def box_hits_def)

lemma contrib_own:
  "n < 9 \<Longrightarrow> contrib row col number row col n = (if n = number then 0 else 1)"
  by (simp add: contrib_def hits_def line_hits_def box_hits_def)

lemma same_box_sym: "same_box p q \<longleftrightarrow> same_box q p"
  by (auto simp add: same_box_def)

lemma contrib_other:
  assumes "(r, c) \<noteq> (row, col)" and "r < 9" and "c < 9"
  shows "contrib row col number r c n =
           (if n = number then
              (if r = row then 1 else 0) + (if c = col then 1 else 0)
                + (if same_box (r, c) (row, col) then 1 else 0)
            else 0)"
proof -
  have ne: "\<not> (r = row \<and> c = col)"
    using assms by simp
  show ?thesis
  proof (cases "n = number")
    case True
    have "\<not> (r = row \<and> c = col \<and> n = number)"
      using ne by blast
    then have "contrib row col number r c n = hits row col number r c n"
      by (simp only: contrib_def if_False)
    also have "\<dots> = (if r = row then 1 else 0) + (if c = col then 1 else 0)
                + (if same_box (r, c) (row, col) then 1 else 0)"
      using ne True assms(2,3)
      by (cases "r = row"; cases "c = col")
        (simp_all add: hits_def line_hits_def box_hits_def same_box_def)
    finally show ?thesis
      using True by simp
  next
    case False
    then show ?thesis
      using ne
      by (cases "r = row"; cases "c = col")
        (simp_all add: contrib_def hits_def line_hits_def box_hits_def)
  qed
qed

lemma contrib_other_zero_iff:
  assumes "(r, c) \<noteq> (row, col)" and "r < 9" and "c < 9"
  shows "contrib row col number r c n = 0 \<longleftrightarrow> \<not> (n = number \<and> peer (r, c) (row, col))"
proof -
  have ne: "\<not> (r = row \<and> c = col)"
    using assms by simp
  show ?thesis
    unfolding contrib_other [OF assms] peer_def
    using ne
    by (cases "n = number"; cases "r = row"; cases "c = col";
        cases "same_box (r, c) (row, col)") simp_all
qed

lemma sum_change_one:
  fixes f f' :: "'a \<Rightarrow> int"
  assumes "finite A" and "a \<in> A" and "\<And>x. x \<in> A \<Longrightarrow> x \<noteq> a \<Longrightarrow> f' x = f x"
  shows "sum f' A = sum f A + (f' a - f a)"
proof -
  have "sum f' (A - {a}) = sum f (A - {a})"
    using assms(3) by (intro sum.cong) auto
  then show ?thesis
    using sum.remove [OF assms(1,2), of f] sum.remove [OF assms(1,2), of f'] by simp
qed

lemma cell_contrib_nonneg: "0 \<le> cell_contrib g r c n p"
  by (simp add: cell_contrib_def contrib_nonneg split: option.split)

lemma cell_contrib_upd_other: "p \<noteq> q \<Longrightarrow> cell_contrib (g(q := x)) r c n p = cell_contrib g r c n p"
  by (simp add: cell_contrib_def)

lemma cell_contrib_zero_iff:
  assumes "r < 9" and "c < 9" and "n < 9"
  shows "cell_contrib g r c n p = 0 \<longleftrightarrow>
           (\<forall>v. g p = Some v \<longrightarrow> (if p = (r, c) then n = v else \<not> (n = v \<and> peer (r, c) p)))"
proof (cases "g p")
  case None
  then show ?thesis by (simp add: cell_contrib_def)
next
  case (Some v)
  show ?thesis
  proof (cases "p = (r, c)")
    case True
    then show ?thesis
      using Some assms(3) by (simp add: cell_contrib_def contrib_own)
  next
    case False
    then have "(r, c) \<noteq> (fst p, snd p)"
      by auto
    from contrib_other_zero_iff [OF this assms(1,2), of v n] False Some
    show ?thesis
      by (simp add: cell_contrib_def)
  qed
qed

lemma wf_gridD: "wf_grid g \<Longrightarrow> g p = Some v \<Longrightarrow> fst p < 9 \<and> snd p < 9 \<and> v < 9"
  by (cases p) (simp add: wf_grid_def)

lemma invariantD:
  assumes "invariant g s"
  shows "wf_grid g" and "consistent g"
    and "\<And>r c. r < 9 \<Longrightarrow> c < 9 \<Longrightarrow> inserted s r c = (if g (r, c) = None then 0 else 1)"
    and "ninserted s = int (card (dom g))"
    and "\<And>r c n. r < 9 \<Longrightarrow> c < 9 \<Longrightarrow> n < 9 \<Longrightarrow>
           constraints s r c n = sum (cell_contrib g r c n) (set cells)"
proof -
  show "wf_grid g" and "consistent g" and "ninserted s = int (card (dom g))"
    using assms by (simp_all add: invariant_def)
  show "inserted s r c = (if g (r, c) = None then 0 else 1)" if "r < 9" and "c < 9" for r c
  proof -
    have "\<forall>p \<in> set cells. inserted s (fst p) (snd p) = (if g p = None then 0 else 1)"
      using assms by (simp add: invariant_def)
    from bspec [OF this, of "(r, c)"] that show ?thesis by simp
  qed
  show "constraints s r c n = sum (cell_contrib g r c n) (set cells)"
    if "r < 9" and "c < 9" and "n < 9" for r c n
  proof -
    have "\<forall>p \<in> set cells. \<forall>n < N.
           constraints s (fst p) (snd p) n = sum (cell_contrib g (fst p) (snd p) n) (set cells)"
      using assms by (simp add: invariant_def)
    from bspec [OF this, of "(r, c)"] that show ?thesis by simp
  qed
qed

lemma invariantI:
  assumes "wf_grid g" and "consistent g"
    and "\<And>r c. r < 9 \<Longrightarrow> c < 9 \<Longrightarrow> inserted s r c = (if g (r, c) = None then 0 else 1)"
    and "ninserted s = int (card (dom g))"
    and "\<And>r c n. r < 9 \<Longrightarrow> c < 9 \<Longrightarrow> n < 9 \<Longrightarrow>
           constraints s r c n = sum (cell_contrib g r c n) (set cells)"
  shows "invariant g s"
  unfolding invariant_def using assms by simp

lemma slot_zero_iff:
  assumes "invariant g s" and "r < 9" and "c < 9" and "n < 9"
  shows "constraints s r c n = 0 \<longleftrightarrow>
           (g (r, c) = None \<or> g (r, c) = Some n) \<and> (\<forall>q. g q = Some n \<longrightarrow> \<not> peer (r, c) q)"
proof -
  have wf: "\<And>p v. g p = Some v \<Longrightarrow> p \<in> set cells"
    using wf_gridD [OF invariantD(1) [OF assms(1)]] by simp
  have "constraints s r c n = sum (cell_contrib g r c n) (set cells)"
    using assms by (simp add: invariantD(5))
  then have "constraints s r c n = 0 \<longleftrightarrow> (\<forall>p \<in> set cells. cell_contrib g r c n p = 0)"
    by (simp add: sum_nonneg_eq_0_iff cell_contrib_nonneg)
  also have "\<dots> \<longleftrightarrow> (\<forall>p. cell_contrib g r c n p = 0)"
  proof -
    have "cell_contrib g r c n p = 0" if "p \<notin> set cells" for p
      using wf [of p] that by (cases "g p") (simp_all add: cell_contrib_def)
    then show ?thesis by blast
  qed
  also have "\<dots> \<longleftrightarrow>
      (\<forall>p v. g p = Some v \<longrightarrow> (if p = (r, c) then n = v else \<not> (n = v \<and> peer (r, c) p)))"
    by (simp add: cell_contrib_zero_iff [OF assms(2-4)])
  also have "\<dots> \<longleftrightarrow>
      (g (r, c) = None \<or> g (r, c) = Some n) \<and> (\<forall>q. g q = Some n \<longrightarrow> \<not> peer (r, c) q)"
  proof -
    have irrefl: "\<not> peer (r, c) (r, c)"
      by (simp add: peer_def)
    show ?thesis
    proof (intro iffI conjI allI impI)
      assume L: "\<forall>p v. g p = Some v \<longrightarrow>
                  (if p = (r, c) then n = v else \<not> (n = v \<and> peer (r, c) p))"
      show "g (r, c) = None \<or> g (r, c) = Some n"
        using L by (cases "g (r, c)") auto
      fix q assume "g q = Some n"
      with L have "if q = (r, c) then n = n else \<not> (n = n \<and> peer (r, c) q)"
        by blast
      then show "\<not> peer (r, c) q"
        using irrefl by (cases "q = (r, c)") simp_all
    next
      fix p v
      assume R: "(g (r, c) = None \<or> g (r, c) = Some n) \<and> (\<forall>q. g q = Some n \<longrightarrow> \<not> peer (r, c) q)"
        and pv: "g p = Some v"
      show "if p = (r, c) then n = v else \<not> (n = v \<and> peer (r, c) p)"
      proof (cases "p = (r, c)")
        case True
        then have "g (r, c) = Some v"
          using pv by simp
        with R have "n = v"
          by auto
        with True show ?thesis
          by simp
      next
        case False
        have "n = v \<Longrightarrow> \<not> peer (r, c) p"
          using R pv by blast
        with False show ?thesis
          by auto
      qed
    qed
  qed
  finally show ?thesis .
qed

lemma invariant_nbacktracks [simp]: "invariant g (s\<lparr>nbacktracks := k\<rparr>) = invariant g s"
  by (simp add: invariant_def)

lemma invariant_new: "invariant (\<lambda>p. None) new_sudoku"
  by (simp add: invariant_def wf_grid_def consistent_def new_sudoku_def cell_contrib_def)

lemma invariant_flag:
  "invariant g s \<Longrightarrow> r < 9 \<Longrightarrow> c < 9 \<Longrightarrow> inserted s r c = 0 \<longleftrightarrow> g (r, c) = None"
  by (simp add: invariantD(3))

lemma peer_irrefl [simp]: "\<not> peer p p"
  by (simp add: peer_def)

lemma consistentD: "consistent g \<Longrightarrow> g p = Some v \<Longrightarrow> g q = Some v \<Longrightarrow> \<not> peer p q"
  unfolding consistent_def by blast

lemma finite_dom_wf: "wf_grid g \<Longrightarrow> finite (dom g)"
proof -
  assume "wf_grid g"
  then have "dom g \<subseteq> set cells"
    by (auto simp add: wf_grid_def dom_def)
  then show ?thesis
    by (rule finite_subset) simp
qed

lemma invariant_commit:
  assumes inv: "invariant g s" and b: "row < 9" "col < 9" "number < 9"
    and none: "g (row, col) = None" and zero: "constraints s row col number = 0"
  shows "\<exists>s'. insert_number_at s row col number = Inr s'
           \<and> invariant (g((row, col) \<mapsto> number)) s' \<and> nbacktracks s' = nbacktracks s"
proof -
  let ?p = "(row, col)"
  let ?g = "g(?p \<mapsto> number)"
  obtain t where t: "change_state_at s row col number 1 = Inr t"
      "\<And>r c n. constraints t r c n = constraints s r c n + contrib row col number r c n"
      "inserted t = (inserted s)(row := (inserted s row)(col := 1))"
      "ninserted t = ninserted s + 1" "nbacktracks t = nbacktracks s"
    using change_state_at_result [of 1 row col number s] b zero by auto
  note d = invariantD [OF inv]
  have nopeer: "\<And>q. g q = Some number \<Longrightarrow> \<not> peer ?p q"
    using slot_zero_iff [OF inv b] zero by blast
  have wf: "wf_grid ?g"
    unfolding wf_grid_def
  proof (intro allI impI)
    fix p v assume "?g p = Some v"
    then show "p \<in> set cells \<and> v < N"
      using b wf_gridD [OF d(1), of p v] by (cases "p = ?p") simp_all
  qed
  have cons: "consistent ?g"
    unfolding consistent_def
  proof (intro allI impI)
    fix p q v assume p: "?g p = Some v" and q: "?g q = Some v"
    show "\<not> peer p q"
    proof (cases "p = ?p")
      case True
      note pp = this
      show ?thesis
      proof (cases "q = ?p")
        case True
        with pp show ?thesis by simp
      next
        case False
        with q pp p have "g q = Some number" by simp
        with nopeer pp show ?thesis by blast
      qed
    next
      case False
      note pp = this
      show ?thesis
      proof (cases "q = ?p")
        case True
        with p pp q have "g p = Some number" by simp
        with nopeer True show ?thesis using peer_sym by blast
      next
        case False
        with p q pp have "g p = Some v" and "g q = Some v"
          by simp_all
        then show ?thesis
          by (rule consistentD [OF d(2)])
      qed
    qed
  qed
  have flags: "inserted t r c = (if ?g (r, c) = None then 0 else 1)" if "r < 9" "c < 9" for r c
    using d(3) [OF that] by (cases "r = row"; cases "c = col") (simp_all add: t(3))
  have "dom ?g = insert ?p (dom g)" and "?p \<notin> dom g"
    using none by auto
  then have "card (dom ?g) = Suc (card (dom g))"
    using finite_dom_wf [OF d(1)] by simp
  then have count: "ninserted t = int (card (dom ?g))"
    using t(4) d(4) by simp
  have slots: "constraints t r c n = sum (cell_contrib ?g r c n) (set cells)"
    if "r < 9" "c < 9" "n < 9" for r c n
  proof -
    have "sum (cell_contrib ?g r c n) (set cells) =
            sum (cell_contrib g r c n) (set cells)
              + (cell_contrib ?g r c n ?p - cell_contrib g r c n ?p)"
      using b by (intro sum_change_one) (simp_all add: cell_contrib_upd_other)
    also have "\<dots> = constraints s r c n + contrib row col number r c n"
      using d(5) [OF that] none by (simp add: cell_contrib_def)
    finally show ?thesis
      by (simp add: t(2))
  qed
  have "invariant ?g t"
    using wf cons flags count slots by (rule invariantI)
  then show ?thesis
    using t(1,5) by (simp add: insert_number_at_def)
qed

lemma invariant_retract:
  assumes inv: "invariant g s" and held: "g (row, col) = Some number"
  shows "\<exists>s'. remove_number_at s row col number = Inr s'
           \<and> invariant (g((row, col) := None)) s' \<and> nbacktracks s' = nbacktracks s"
proof -
  let ?p = "(row, col)"
  let ?g = "g(?p := None)"
  note d = invariantD [OF inv]
  have b: "row < 9" "col < 9" "number < 9"
    using wf_gridD [OF d(1) held] by simp_all
  have "\<And>q. g q = Some number \<Longrightarrow> \<not> peer ?p q"
    by (rule consistentD [OF d(2) held])
  then have zero: "constraints s row col number = 0"
    using slot_zero_iff [OF inv b] held by simp
  obtain t where t: "change_state_at s row col number (- 1) = Inr t"
      "\<And>r c n. constraints t r c n = constraints s r c n - contrib row col number r c n"
      "inserted t = (inserted s)(row := (inserted s row)(col := 0))"
      "ninserted t = ninserted s - 1" "nbacktracks t = nbacktracks s"
    using change_state_at_result [of "- 1" row col number s] b zero by auto
  have wf: "wf_grid ?g"
    unfolding wf_grid_def
  proof (intro allI impI)
    fix p v assume "?g p = Some v"
    then have "g p = Some v"
      by (simp split: if_splits)
    then show "p \<in> set cells \<and> v < N"
      using wf_gridD [OF d(1), of p v] by simp
  qed
  have cons: "consistent ?g"
    unfolding consistent_def
  proof (intro allI impI)
    fix p q v assume "?g p = Some v" and "?g q = Some v"
    then have "g p = Some v" and "g q = Some v"
      by (simp_all split: if_splits)
    then show "\<not> peer p q"
      by (rule consistentD [OF d(2)])
  qed
  have flags: "inserted t r c = (if ?g (r, c) = None then 0 else 1)" if "r < 9" "c < 9" for r c
    using d(3) [OF that] by (cases "r = row"; cases "c = col") (simp_all add: t(3))
  have "dom ?g = dom g - {?p}" and "?p \<in> dom g"
    using held by auto
  then have "Suc (card (dom ?g)) = card (dom g)"
    using card_Suc_Diff1 [OF finite_dom_wf [OF d(1)], of ?p] by simp
  then have count: "ninserted t = int (card (dom ?g))"
    using t(4) d(4) by simp
  have slots: "constraints t r c n = sum (cell_contrib ?g r c n) (set cells)"
    if "r < 9" "c < 9" "n < 9" for r c n
  proof -
    have "sum (cell_contrib ?g r c n) (set cells) =
            sum (cell_contrib g r c n) (set cells)
              + (cell_contrib ?g r c n ?p - cell_contrib g r c n ?p)"
      using b by (intro sum_change_one) (simp_all add: cell_contrib_upd_other)
    also have "\<dots> = constraints s r c n - contrib row col number r c n"
      using d(5) [OF that] held by (simp add: cell_contrib_def)
    finally show ?thesis
      by (simp add: t(2))
  qed
  have "invariant ?g t"
    using wf cons flags count slots by (rule invariantI)
  then show ?thesis
    using t(1,5) by (simp add: remove_number_at_def)
qed

lemma reach_invariant: "reach g s \<Longrightarrow> invariant g s \<and> nbacktracks s = 0"
proof (induction rule: reach.induct)
  case reach_new
  show ?case by (simp add: invariant_new) (simp add: new_sudoku_def)
next
  case (reach_commit g s row col number s')
  then have "g (row, col) = None"
    using invariant_flag [of g s row col] by simp
  then obtain t where t: "insert_number_at s row col number = Inr t"
      "invariant (g((row, col) \<mapsto> number)) t" "nbacktracks t = nbacktracks s"
    using invariant_commit [of g s row col number] reach_commit by auto
  from t(1) reach_commit.hyps(7) have "t = s'"
    by simp
  with t(2,3) reach_commit.IH show ?case
    by metis
next
  case (reach_retract g s row col number s')
  then obtain t where t: "remove_number_at s row col number = Inr t"
      "invariant (g((row, col) := None)) t" "nbacktracks t = nbacktracks s"
    using invariant_retract [of g s row col number] by blast
  from t(1) reach_retract.hyps(3) have "t = s'"
    by simp
  with t(2,3) reach_retract.IH show ?case
    by metis
qed

lemma commits_reach: "commits g s \<Longrightarrow> reach g s"
proof (induction rule: commits.induct)
  case commits_new
  show ?case by (rule reach_new)
next
  case (commits_commit g s row col number s')
  from commits_commit.IH commits_commit.hyps(2-7) show ?case
    by (rule reach_commit)
qed

lemma fold_collect:
  "fold (\<lambda>n ps. if P n then ps @ [n] else ps) xs acc = acc @ filter P xs"
  by (induction xs arbitrary: acc) simp_all

lemma get_possibilities_at_eq:
  "get_possibilities_at s row col = filter (\<lambda>n. constraints s row col n = 0) [0..<9]"
  by (simp add: get_possibilities_at_def fold_collect)

lemma poss_count_le: "poss_count_at s p \<le> 9"
proof -
  have "length (filter (\<lambda>n. constraints s (fst p) (snd p) n = 0) [0..<9]) \<le> length [0..<9]"
    by (rule length_filter_le)
  then show ?thesis
    by (simp add: poss_count_at_def get_possibilities_at_eq)
qed

lemma scan_cell_step:
  assumes ok: "scan_ok s S acc" and later: "\<forall>q \<in> S. scanned_before q x"
  shows "scan_ok s (insert x S) (scan_cell s (fst x) (snd x) acc)"
proof (cases "uncommitted s x")
  case False
  then have "scan_cell s (fst x) (snd x) acc = acc"
    by (simp add: scan_cell_def uncommitted_def)
  then show ?thesis
    using ok False by (auto simp add: scan_ok_def split: option.splits)
next
  case True
  note unc = this
  show ?thesis
  proof (cases "poss_count_at s x < fst acc")
    case True
    then have eq: "scan_cell s (fst x) (snd x) acc = (poss_count_at s x, Some x)"
      using unc by (simp add: scan_cell_def uncommitted_def poss_count_at_def)
    have "poss_count_at s x \<le> poss_count_at s q \<and> poss_count_at s q \<noteq> poss_count_at s x"
      if "q \<in> S" and "uncommitted s q" for q
      using ok True that by (auto simp add: scan_ok_def split: option.splits)
    then show ?thesis
      using unc by (auto simp add: eq scan_ok_def)
  next
    case False
    then have eq: "scan_cell s (fst x) (snd x) acc = acc"
      using unc by (simp add: scan_cell_def uncommitted_def poss_count_at_def)
    from False poss_count_le [of s x] have "fst acc \<noteq> N + 1"
      by simp
    then obtain p where p: "snd acc = Some p"
      using ok by (cases "snd acc") (simp_all add: scan_ok_def)
    then have "p \<in> S" and "fst acc = poss_count_at s p"
      using ok by (simp_all add: scan_ok_def)
    with later False have "poss_count_at s p \<le> poss_count_at s x" and "scanned_before p x"
      by auto
    then show ?thesis
      using ok p by (auto simp add: eq scan_ok_def)
  qed
qed

lemma scan_fold:
  assumes "scan_ok s S acc" and "sorted_wrt scanned_before xs"
    and "\<forall>q \<in> S. \<forall>x \<in> set xs. scanned_before q x"
  shows "scan_ok s (S \<union> set xs) (fold (\<lambda>p. scan_cell s (fst p) (snd p)) xs acc)"
  using assms
proof (induction xs arbitrary: S acc)
  case Nil
  then show ?case by simp
next
  case (Cons x xs)
  have "scan_ok s (insert x S) (scan_cell s (fst x) (snd x) acc)"
    using Cons.prems(1,3) by (intro scan_cell_step) simp_all
  moreover have "sorted_wrt scanned_before xs"
    using Cons.prems(2) by simp
  moreover have "\<forall>q \<in> insert x S. \<forall>y \<in> set xs. scanned_before q y"
    using Cons.prems(2,3) by simp
  ultimately have "scan_ok s (insert x S \<union> set xs)
      (fold (\<lambda>p. scan_cell s (fst p) (snd p)) xs (scan_cell s (fst x) (snd x) acc))"
    by (rule Cons.IH)
  then show ?case by simp
qed

lemma fold_product:
  "fold (\<lambda>i. fold (\<lambda>j. f i j) ys) xs = fold (\<lambda>p. f (fst p) (snd p)) (List.product xs ys)"
proof (induction xs)
  case Nil
  show ?case by simp
next
  case (Cons x xs)
  have "fold (\<lambda>p. f (fst p) (snd p)) (map (Pair x) ys) = fold (\<lambda>j. f x j) ys"
    by (simp add: fold_map comp_def)
  then show ?case
    by (simp add: Cons fun_eq_iff)
qed

lemma sorted_product:
  "sorted_wrt (<) xs \<Longrightarrow> sorted_wrt (<) ys \<Longrightarrow> sorted_wrt scanned_before (List.product xs ys)"
proof (induction xs)
  case Nil
  show ?case by simp
next
  case (Cons x xs)
  have "sorted_wrt scanned_before (map (Pair x) ys)"
    using Cons.prems(2) by (simp add: sorted_wrt_map scanned_before_def)
  moreover have "sorted_wrt scanned_before (List.product xs ys)"
    using Cons by simp
  moreover have "\<forall>p \<in> set (map (Pair x) ys). \<forall>q \<in> set (List.product xs ys). scanned_before p q"
    using Cons.prems(1) by (auto simp add: scanned_before_def)
  ultimately show ?case
    by (simp add: sorted_wrt_append)
qed

lemma scan_cells_ok: "scan_ok s (set cells) (scan_cells s)"
proof -
  have eq: "scan_cells s = fold (\<lambda>p. scan_cell s (fst p) (snd p)) cells (N + 1, None)"
    unfolding scan_cells_def cells_def by (simp only: fold_product)
  have "sorted_wrt scanned_before cells"
    unfolding cells_def by (intro sorted_product) simp_all
  moreover have "scan_ok s {} (N + 1, None)"
    by (simp add: scan_ok_def)
  ultimately have "scan_ok s ({} \<union> set cells)
      (fold (\<lambda>p. scan_cell s (fst p) (snd p)) cells (N + 1, None))"
    by (intro scan_fold) simp_all
  then show ?thesis
    by (simp only: eq Un_empty_left)
qed

lemma get_most_constrained_cell_result:
  assumes "p \<in> set cells" and "uncommitted s p"
  shows "\<exists>row col. get_most_constrained_cell s = Inr (row, col, get_possibilities_at s row col)
           \<and> (row, col) \<in> set cells \<and> uncommitted s (row, col)
           \<and> (\<forall>q \<in> set cells. uncommitted s q \<longrightarrow>
                 poss_count_at s (row, col) \<le> poss_count_at s q
                 \<and> (poss_count_at s q = poss_count_at s (row, col) \<longrightarrow>
                      (row, col) = q \<or> scanned_before (row, col) q))"
proof -
  have ok: "scan_ok s (set cells) (scan_cells s)"
    by (rule scan_cells_ok)
  obtain m cell where acc: "scan_cells s = (m, cell)"
    by (cases "scan_cells s")
  have "cell \<noteq> None"
    using ok assms unfolding acc scan_ok_def by (cases cell) auto
  then obtain row col where cell: "cell = Some (row, col)"
    by (cases cell) auto
  have res: "get_most_constrained_cell s = Inr (row, col, get_possibilities_at s row col)"
    by (simp add: get_most_constrained_cell_def acc cell)
  from ok show ?thesis
    unfolding acc cell scan_ok_def res by simp
qed

lemma holds_once_group:
  assumes dist: "distinct ps" and len: "length ps = 9"
    and vals: "\<forall>p \<in> set ps. \<exists>v < 9. h p = Some v" and inj: "inj_on h (set ps)"
  shows "holds_once h ps"
proof -
  have "card (h ` set ps) = 9"
    using inj dist len by (simp add: card_image distinct_card)
  moreover have "h ` set ps \<subseteq> Some ` {..<9}"
    using vals by auto
  moreover have "card (Some ` {..<(9::nat)}) = 9"
    by (simp add: card_image)
  ultimately have img: "h ` set ps = Some ` {..<9}"
    by (intro card_subset_eq) simp_all
  have "length (filter (\<lambda>p. h p = Some v) ps) = 1" if "v < 9" for v
  proof -
    from that img have "Some v \<in> h ` set ps"
      by auto
    then obtain p where p: "p \<in> set ps" "h p = Some v"
      by auto
    have "x = p" if "x \<in> set ps" and "h x = Some v" for x
      using inj_onD [OF inj, of x p] that p by simp
    then have "{x. h x = Some v} \<inter> set ps = {p}"
      using p by blast
    then show ?thesis
      by (simp add: distinct_length_filter [OF dist])
  qed
  then show ?thesis
    by (simp add: holds_once_def list_all_iff)
qed

lemma holds_once_distinct:
  assumes "holds_once h ps" and "distinct ps" and "p \<in> set ps" and "q \<in> set ps"
    and "h p = Some v" and "h q = Some v" and "v < 9"
  shows "p = q"
proof (rule ccontr)
  assume "p \<noteq> q"
  have "length (filter (\<lambda>p. h p = Some v) ps) = 1"
    using assms(1,7) by (simp add: holds_once_def list_all_iff)
  then have one: "card ({x. h x = Some v} \<inter> set ps) = 1"
    by (simp add: distinct_length_filter [OF assms(2)])
  have "{p, q} \<subseteq> {x. h x = Some v} \<inter> set ps"
    using assms by simp
  then have "card {p, q} \<le> card ({x. h x = Some v} \<inter> set ps)"
    by (intro card_mono) simp_all
  with one \<open>p \<noteq> q\<close> show False
    by simp
qed

lemma row_cells_facts:
  "distinct (row_cells r)" "length (row_cells r) = 9"
  "p \<in> set (row_cells r) \<longleftrightarrow> fst p = r \<and> snd p < 9"
  by (cases p; auto simp add: row_cells_def distinct_map inj_on_def)+

lemma col_cells_facts:
  "distinct (col_cells c)" "length (col_cells c) = 9"
  "p \<in> set (col_cells c) \<longleftrightarrow> snd p = c \<and> fst p < 9"
  by (cases p; auto simp add: col_cells_def distinct_map inj_on_def)+

lemma in_box_range: "r \<in> (\<lambda>i. 3 * b + i) ` {0..<3} \<longleftrightarrow> r div 3 = (b::nat)"
proof
  assume "r \<in> (\<lambda>i. 3 * b + i) ` {0..<3}"
  then show "r div 3 = b" by auto
next
  assume "r div 3 = b"
  then have "r = 3 * b + r mod 3" and "r mod 3 \<in> {0..<3}"
    by auto
  then show "r \<in> (\<lambda>i. 3 * b + i) ` {0..<3}" by (rule image_eqI)
qed

lemma box_cells_facts:
  "distinct (box_cells br bc)" "length (box_cells br bc) = 9"
  "p \<in> set (box_cells br bc) \<longleftrightarrow> fst p div 3 = br \<and> snd p div 3 = bc"
proof -
  show "distinct (box_cells br bc)"
    by (simp add: box_cells_def distinct_product distinct_map inj_on_def)
  show "length (box_cells br bc) = 9"
    by (simp add: box_cells_def)
  have "set (box_cells br bc) = (\<lambda>i. 3 * br + i) ` {0..<3} \<times> (\<lambda>j. 3 * bc + j) ` {0..<3}"
    by (simp only: box_cells_def set_product set_map set_upt SQRT_N_eq)
  then have "p \<in> set (box_cells br bc) \<longleftrightarrow>
          fst p \<in> (\<lambda>i. 3 * br + i) ` {0..<3} \<and> snd p \<in> (\<lambda>j. 3 * bc + j) ` {0..<3}"
    by (cases p) (simp only: mem_Sigma_iff fst_conv snd_conv)
  then show "p \<in> set (box_cells br bc) \<longleftrightarrow> fst p div 3 = br \<and> snd p div 3 = bc"
    by (simp only: in_box_range)
qed

lemma filledD: "filled h \<Longrightarrow> p \<in> set cells \<Longrightarrow> \<exists>v < 9. h p = Some v"
  by (cases "h p") (auto simp add: filled_def list_all_iff simp del: in_cells)

lemma solved_gridD:
  assumes "solved_grid h"
  shows "filled h"
    and "r < 9 \<Longrightarrow> holds_once h (row_cells r)"
    and "c < 9 \<Longrightarrow> holds_once h (col_cells c)"
    and "br < 3 \<Longrightarrow> bc < 3 \<Longrightarrow> holds_once h (box_cells br bc)"
  using assms by (simp_all add: solved_grid_def list_all_iff)

lemma solved_grid_no_peers:
  assumes sol: "solved_grid h" and p: "p \<in> set cells" and q: "q \<in> set cells"
    and hp: "h p = Some v" and hq: "h q = Some v"
  shows "\<not> peer p q"
proof
  assume peer: "peer p q"
  have v: "v < 9"
    using filledD [OF solved_gridD(1) [OF sol] p] hp by simp
  have b: "fst p < 9" "snd p < 9" "fst q < 9" "snd q < 9"
    using p q by simp_all
  from peer have "p \<noteq> q" and
    "fst p = fst q \<or> snd p = snd q \<or> same_box p q"
    by (simp_all add: peer_def)
  then consider "fst p = fst q" | "snd p = snd q" | "same_box p q"
    by blast
  then have "p = q"
  proof cases
    case 1
    have "holds_once h (row_cells (fst p))"
      using sol b by (simp add: solved_gridD(2))
    moreover have "p \<in> set (row_cells (fst p))" and "q \<in> set (row_cells (fst p))"
      using b 1 by (simp_all add: row_cells_facts)
    ultimately show ?thesis
      using hp hq v by (intro holds_once_distinct [of h "row_cells (fst p)" p q v])
        (simp_all add: row_cells_facts)
  next
    case 2
    have "holds_once h (col_cells (snd p))"
      using sol b by (simp add: solved_gridD(3))
    moreover have "p \<in> set (col_cells (snd p))" and "q \<in> set (col_cells (snd p))"
      using b 2 by (simp_all add: col_cells_facts)
    ultimately show ?thesis
      using hp hq v by (intro holds_once_distinct [of h "col_cells (snd p)" p q v])
        (simp_all add: col_cells_facts)
  next
    case 3
    have "fst p div 3 < 3" and "snd p div 3 < 3"
      using b by simp_all
    then have "holds_once h (box_cells (fst p div 3) (snd p div 3))"
      using sol by (simp add: solved_gridD(4))
    moreover have "p \<in> set (box_cells (fst p div 3) (snd p div 3))"
      and "q \<in> set (box_cells (fst p div 3) (snd p div 3))"
      using 3 by (simp_all add: box_cells_facts same_box_def)
    ultimately show ?thesis
      using hp hq v
      by (intro holds_once_distinct [of h "box_cells (fst p div 3) (snd p div 3)" p q v])
        (simp_all add: box_cells_facts)
  qed
  with \<open>p \<noteq> q\<close> show False
    by simp
qed

lemma solved_gridI:
  assumes wf: "wf_grid h" and cons: "consistent h" and full: "\<forall>p \<in> set cells. h p \<noteq> None"
  shows "solved_grid h"
proof -
  have vals: "\<exists>v < 9. h p = Some v" if "p \<in> set cells" for p
    using bspec [OF full that] wf_gridD [OF wf, of p] by (cases "h p") auto
  have group: "holds_once h ps"
    if g1: "distinct ps" and g2: "length ps = 9" and g3: "set ps \<subseteq> set cells"
      and g4: "\<And>p q. p \<in> set ps \<Longrightarrow> q \<in> set ps \<Longrightarrow> p \<noteq> q \<Longrightarrow> peer p q" for ps
  proof (rule holds_once_group [OF g1 g2])
    show "\<forall>p \<in> set ps. \<exists>v < 9. h p = Some v"
    proof
      fix p assume "p \<in> set ps"
      with g3 have "p \<in> set cells" ..
      then show "\<exists>v < 9. h p = Some v" by (rule vals)
    qed
    show "inj_on h (set ps)"
    proof (rule inj_onI)
      fix p q assume pq: "p \<in> set ps" "q \<in> set ps" "h p = h q"
      from g3 pq(1) have "p \<in> set cells" ..
      from vals [OF this] obtain v where hp: "h p = Some v"
        by auto
      then have hq: "h q = Some v"
        by (simp only: pq(3))
      have "\<not> peer p q"
        by (rule consistentD [OF cons hp hq])
      with g4 pq(1,2) show "p = q"
        by blast
    qed
  qed
  have "filled h"
    unfolding filled_def list_all_iff
  proof
    fix p assume "p \<in> set cells"
    from vals [OF this] show "case h p of None \<Rightarrow> False | Some v \<Rightarrow> v < N"
      by auto
  qed
  moreover have "holds_once h (row_cells r)" if "r < 9" for r
    using that by (intro group) (auto simp add: row_cells_facts peer_def)
  moreover have "holds_once h (col_cells c)" if "c < 9" for c
    using that by (intro group) (auto simp add: col_cells_facts peer_def)
  moreover have "holds_once h (box_cells br bc)" if br: "br < 3" and bc: "bc < 3" for br bc
  proof (intro group)
    show "set (box_cells br bc) \<subseteq> set cells"
    proof
      fix p assume "p \<in> set (box_cells br bc)"
      then have "fst p div 3 = br" and "snd p div 3 = bc"
        by (simp_all add: box_cells_facts)
      with br bc have "fst p div 3 < 3" and "snd p div 3 < 3"
        by simp_all
      then have "fst p < 9" and "snd p < 9"
        by (simp_all add: div_less_iff_less_mult)
      then show "p \<in> set cells"
        by simp
    qed
    show "peer p q" if pq: "p \<in> set (box_cells br bc)" "q \<in> set (box_cells br bc)"
      "p \<noteq> q" for p q
      using pq by (simp add: box_cells_facts peer_def same_box_def)
  qed (simp_all add: box_cells_facts)
  ultimately show ?thesis
    by (simp add: solved_grid_def list_all_iff)
qed

lemma card_cells: "card (set cells) = 81"
  using distinct_card [OF distinct_cells] by (simp add: cells_def)

lemma dom_subset_cells: "wf_grid g \<Longrightarrow> dom g \<subseteq> set cells"
  by (auto simp add: wf_grid_def dom_def simp del: in_cells)

lemma card_dom_le: "wf_grid g \<Longrightarrow> card (dom g) \<le> 81"
  using card_mono [OF _ dom_subset_cells, of g] by (simp add: card_cells)

lemma full_grid_iff:
  assumes "wf_grid g"
  shows "card (dom g) = 81 \<longleftrightarrow> (\<forall>p \<in> set cells. g p \<noteq> None)"
proof
  assume "card (dom g) = 81"
  then have "dom g = set cells"
    using dom_subset_cells [OF assms] by (intro card_subset_eq) (simp_all add: card_cells)
  then show "\<forall>p \<in> set cells. g p \<noteq> None"
    by (auto simp add: dom_def simp del: in_cells)
next
  assume "\<forall>p \<in> set cells. g p \<noteq> None"
  then have "set cells \<subseteq> dom g"
    by (auto simp add: dom_def simp del: in_cells)
  with dom_subset_cells [OF assms] have "dom g = set cells"
    by blast
  then show "card (dom g) = 81"
    by (simp only: card_cells)
qed

lemma completion_candidate:
  assumes inv: "invariant g s" and b: "row < 9" "col < 9" and none: "g (row, col) = None"
    and comp: "completion g h"
  shows "\<exists>v. v \<in> set (get_possibilities_at s row col) \<and> completion (g((row, col) \<mapsto> v)) h"
proof -
  have le: "g \<subseteq>\<^sub>m h" and sol: "solved_grid h"
    using comp by (simp_all add: completion_def)
  have cell: "(row, col) \<in> set cells"
    using b by simp
  from filledD [OF solved_gridD(1) [OF sol] cell]
  obtain v where v: "v < 9" "h (row, col) = Some v"
    by blast
  have "\<not> peer (row, col) q" if "g q = Some v" for q
  proof -
    from that le have "h q = Some v"
      by (metis domI map_le_def)
    moreover have "q \<in> set cells"
      using wf_gridD [OF invariantD(1) [OF inv] that] by simp
    ultimately show ?thesis
      using solved_grid_no_peers [OF sol cell _ v(2)] by blast
  qed
  then have "constraints s row col v = 0"
    using slot_zero_iff [OF inv b v(1)] none by simp
  then have "v \<in> set (get_possibilities_at s row col)"
    using v(1) by (simp add: get_possibilities_at_eq)
  moreover have "g((row, col) \<mapsto> v) \<subseteq>\<^sub>m h"
    using le v(2) by (auto simp add: map_le_def)
  ultimately show ?thesis
    using sol by (auto simp add: completion_def)
qed

lemma map_le_upd_new:
  assumes "g p = None" and "g(p \<mapsto> v) \<subseteq>\<^sub>m h"
  shows "g \<subseteq>\<^sub>m h"
  unfolding map_le_def
proof
  fix a assume a: "a \<in> dom g"
  with assms(1) have "a \<noteq> p"
    by auto
  then have same: "(g(p \<mapsto> v)) a = g a" and in_dom: "a \<in> dom (g(p \<mapsto> v))"
    using a by simp_all
  from assms(2) have "\<forall>a \<in> dom (g(p \<mapsto> v)). (g(p \<mapsto> v)) a = h a"
    unfolding map_le_def .
  from bspec [OF this in_dom] show "g a = h a"
    by (simp only: same)
qed

lemma try_candidates_ok:
  assumes rec: "\<And>g' t. invariant g' t \<Longrightarrow> card (dom g') = Suc (card (dom g)) \<Longrightarrow>
                  outcome_ok g' t (rec t)"
    and b: "row < 9" "col < 9" and none: "g (row, col) = None"
  shows "invariant g s \<Longrightarrow> \<forall>p \<in> set ps. p < 9 \<and> constraints s row col p = 0 \<Longrightarrow>
         \<exists>b s'. try_candidates rec s row col ps = Some (Inr (b, s'))
           \<and> ((b = 1 \<and> (\<exists>h. invariant h s' \<and> g \<subseteq>\<^sub>m h \<and> (\<forall>p \<in> set cells. h p \<noteq> None)))
              \<or> (b = 0 \<and> (\<exists>k. s' = s\<lparr>nbacktracks := k\<rparr>)
                  \<and> (\<forall>p \<in> set ps. \<not> (\<exists>h. completion (g((row, col) \<mapsto> p)) h))))"
proof (induction ps arbitrary: s)
  case Nil
  have "s = s\<lparr>nbacktracks := nbacktracks s\<rparr>"
    by simp
  then show ?case
    by (metis try_candidates.simps(1) empty_iff list.set(1))
next
  case (Cons p ps)
  let ?g = "g((row, col) \<mapsto> p)"
  have p: "p < 9" "constraints s row col p = 0"
    using Cons.prems(2) by simp_all
  obtain s1 where s1: "insert_number_at s row col p = Inr s1" "invariant ?g s1"
    using invariant_commit [OF Cons.prems(1) b p(1) none p(2)] by blast
  have "dom ?g = insert (row, col) (dom g)" and "(row, col) \<notin> dom g"
    using none by auto
  then have "card (dom ?g) = Suc (card (dom g))"
    using finite_dom_wf [OF invariantD(1) [OF Cons.prems(1)]] by simp
  from rec [OF s1(2) this] obtain b1 s2 where r: "rec s1 = Some (Inr (b1, s2))"
      "(b1 = 1 \<and> (\<exists>h. invariant h s2 \<and> ?g \<subseteq>\<^sub>m h \<and> (\<forall>p \<in> set cells. h p \<noteq> None)))
       \<or> (b1 = 0 \<and> (\<exists>k. s2 = s1\<lparr>nbacktracks := k\<rparr>) \<and> \<not> (\<exists>h. completion ?g h))"
    unfolding outcome_ok_def by blast
  from r(2) show ?case
  proof (elim disjE conjE exE)
    fix h assume h: "b1 = 1" "invariant h s2" "?g \<subseteq>\<^sub>m h" "\<forall>p \<in> set cells. h p \<noteq> None"
    have "try_candidates rec s row col (p # ps) = Some (Inr (1, s2))"
      using s1(1) r(1) h(1) by simp
    moreover have "g \<subseteq>\<^sub>m h"
      using none h(3) by (rule map_le_upd_new)
    ultimately show ?thesis
      using h(2,4) by blast
  next
    fix k assume f: "b1 = 0" "s2 = s1\<lparr>nbacktracks := k\<rparr>" "\<not> (\<exists>h. completion ?g h)"
    let ?s3 = "s\<lparr>nbacktracks := k\<rparr>"
    have free: "inserted s row col = 0"
      using invariant_flag [OF Cons.prems(1) b] none by simp
    have rem: "remove_number_at s2 row col p = Inr ?s3"
      unfolding f(2) using b p free s1(1) by (intro insert_remove_restores)
    have step: "try_candidates rec s row col (p # ps) = try_candidates rec ?s3 row col ps"
      using s1(1) r(1) f(1) rem by simp
    have "invariant g ?s3"
      using Cons.prems(1) by simp
    moreover have "\<forall>p \<in> set ps. p < 9 \<and> constraints ?s3 row col p = 0"
      using Cons.prems(2) by simp
    ultimately obtain b' s' where res0: "try_candidates rec ?s3 row col ps = Some (Inr (b', s'))"
       "(b' = 1 \<and> (\<exists>h. invariant h s' \<and> g \<subseteq>\<^sub>m h \<and> (\<forall>p \<in> set cells. h p \<noteq> None)))
        \<or> (b' = 0 \<and> (\<exists>k. s' = ?s3\<lparr>nbacktracks := k\<rparr>)
            \<and> (\<forall>p \<in> set ps. \<not> (\<exists>h. completion (g((row, col) \<mapsto> p)) h)))"
      using Cons.IH [of ?s3] by blast
    have res: "try_candidates rec s row col (p # ps) = Some (Inr (b', s'))"
      using step res0(1) by simp
    from res0(2) show ?thesis
    proof (elim disjE conjE exE)
      fix h assume "b' = 1" "invariant h s'" "g \<subseteq>\<^sub>m h" "\<forall>p \<in> set cells. h p \<noteq> None"
      then show ?thesis
        using res by blast
    next
      fix k' assume z: "b' = 0" "s' = ?s3\<lparr>nbacktracks := k'\<rparr>"
        "\<forall>p \<in> set ps. \<not> (\<exists>h. completion (g((row, col) \<mapsto> p)) h)"
      have "s' = s\<lparr>nbacktracks := k'\<rparr>"
        using z(2) by simp
      moreover have "\<forall>q \<in> set (p # ps). \<not> (\<exists>h. completion (g((row, col) \<mapsto> q)) h)"
        using z(3) f(3) by simp
      ultimately show ?thesis
        using res z(1) by blast
    qed
  qed
qed

lemma solve_body_ok:
  assumes rec: "\<And>g' t. invariant g' t \<Longrightarrow> card (dom g') = Suc (card (dom g)) \<Longrightarrow>
                  outcome_ok g' t (rec t)"
    and inv: "invariant g s"
  shows "outcome_ok g s (solve_body rec s)"
proof (cases "ninserted s = 81")
  case True
  then have "card (dom g) = 81"
    using invariantD(4) [OF inv] by simp
  then have "\<forall>p \<in> set cells. g p \<noteq> None"
    by (simp only: full_grid_iff [OF invariantD(1) [OF inv]])
  moreover have "solve_body rec s = Some (Inr (1, s))"
    using True by (simp add: solve_body_def)
  ultimately show ?thesis
    unfolding outcome_ok_def using inv by (metis map_le_refl)
next
  case False
  then have "card (dom g) \<noteq> 81"
    using invariantD(4) [OF inv] by simp
  then obtain p0 where p0: "p0 \<in> set cells" "g p0 = None"
    unfolding full_grid_iff [OF invariantD(1) [OF inv]] by blast
  then have "uncommitted s p0"
    using invariantD(3) [OF inv, of "fst p0" "snd p0"] by (simp add: uncommitted_def)
  from get_most_constrained_cell_result [OF p0(1) this]
  obtain row col where sel:
      "get_most_constrained_cell s = Inr (row, col, get_possibilities_at s row col)"
      "(row, col) \<in> set cells" "uncommitted s (row, col)"
    by blast
  have b: "row < 9" "col < 9"
    using sel(2) by simp_all
  have none: "g (row, col) = None"
    using sel(3) invariant_flag [OF inv b] by (simp add: uncommitted_def)
  let ?ps = "get_possibilities_at s row col"
  show ?thesis
  proof (cases "?ps = []")
    case True
    then have "solve_body rec s = Some (Inr (0, s\<lparr>nbacktracks := nbacktracks s + 1\<rparr>))"
      using False sel(1) by (simp add: solve_body_def)
    moreover have "\<not> (\<exists>h. completion g h)"
      using completion_candidate [OF inv b none] True by auto
    ultimately show ?thesis
      unfolding outcome_ok_def by blast
  next
    case ne: False
    then have body: "solve_body rec s = try_candidates rec s row col ?ps"
      using False sel(1) by (simp add: solve_body_def)
    have "\<forall>p \<in> set ?ps. p < 9 \<and> constraints s row col p = 0"
      by (simp add: get_possibilities_at_eq)
    from try_candidates_ok [of g rec row col s ?ps, OF rec b none inv this]
    obtain r s' where res: "try_candidates rec s row col ?ps = Some (Inr (r, s'))"
        "(r = 1 \<and> (\<exists>h. invariant h s' \<and> g \<subseteq>\<^sub>m h \<and> (\<forall>p \<in> set cells. h p \<noteq> None)))
         \<or> (r = 0 \<and> (\<exists>k. s' = s\<lparr>nbacktracks := k\<rparr>)
             \<and> (\<forall>p \<in> set ?ps. \<not> (\<exists>h. completion (g((row, col) \<mapsto> p)) h)))"
      by blast
    have "\<not> (\<exists>h. completion g h)"
      if "\<forall>p \<in> set ?ps. \<not> (\<exists>h. completion (g((row, col) \<mapsto> p)) h)"
      using completion_candidate [OF inv b none] that by blast
    with res(2) have
      "(r = 1 \<and> (\<exists>h. invariant h s' \<and> g \<subseteq>\<^sub>m h \<and> (\<forall>p \<in> set cells. h p \<noteq> None)))
       \<or> (r = 0 \<and> (\<exists>k. s' = s\<lparr>nbacktracks := k\<rparr>) \<and> \<not> (\<exists>h. completion g h))"
      by blast
    then show ?thesis
      unfolding outcome_ok_def body res(1) by blast
  qed
qed

lemma solve_ok:
  "invariant g s \<Longrightarrow> 81 - card (dom g) \<le> depth \<Longrightarrow> outcome_ok g s (solve depth s)"
proof (induction depth arbitrary: g s)
  case 0
  have "outcome_ok g' t None"
    if "invariant g' t" and "card (dom g') = Suc (card (dom g))" for g' t
  proof -
    have "card (dom g') \<le> 81"
      using that(1) by (intro card_dom_le invariantD(1))
    with that(2) 0(2) show ?thesis
      by simp
  qed
  then show ?case
    using 0(1) by (simp only: solve.simps) (rule solve_body_ok)
next
  case (Suc depth)
  have "outcome_ok g' t (solve depth t)"
    if "invariant g' t" and "card (dom g') = Suc (card (dom g))" for g' t
    using that Suc.prems(2) by (intro Suc.IH) simp_all
  then show ?case
    using Suc.prems(1) by (simp only: solve.simps) (rule solve_body_ok)
qed

lemma try_candidates_mono:
  assumes "\<And>t x. rec t = Some x \<Longrightarrow> rec' t = Some x"
  shows "try_candidates rec s row col ps = Some x \<Longrightarrow> try_candidates rec' s row col ps = Some x"
proof (induction ps arbitrary: s)
  case Nil
  then show ?case by simp
next
  case (Cons p ps)
  show ?case
  proof (cases "insert_number_at s row col p")
    case (Inl e)
    with Cons.prems show ?thesis by auto
  next
    case (Inr s1)
    note ins = this
    show ?thesis
    proof (cases "rec s1")
      case None
      with Cons.prems ins show ?thesis by auto
    next
      case (Some y)
      show ?thesis
      proof (cases y)
        case (Inl e)
        with Some have r: "rec s1 = Some (Inl e)"
          by simp
        then have "rec' s1 = Some (Inl e)"
          by (rule assms)
        with Cons.prems ins r show ?thesis by auto
      next
        case (Inr bs)
        obtain b s2 where "bs = (b, s2)"
          by (cases bs)
        with Some Inr have r: "rec s1 = Some (Inr (b, s2))"
          by simp
        then have r': "rec' s1 = Some (Inr (b, s2))"
          by (rule assms)
        show ?thesis
        proof (cases "b = 0")
          case False
          with Cons.prems ins r r' show ?thesis by auto
        next
          case True
          show ?thesis
          proof (cases "remove_number_at s2 row col p")
            case (Inl e)
            with Cons.prems ins r r' True show ?thesis by auto
          next
            case rem: (Inr s3)
            with Cons.prems ins r True
            have "try_candidates rec s3 row col ps = Some x"
              by simp
            then have "try_candidates rec' s3 row col ps = Some x"
              by (rule Cons.IH)
            with True ins r' rem show ?thesis
              by auto
          qed
        qed
      qed
    qed
  qed
qed

lemma solve_body_mono:
  assumes "\<And>t x. rec t = Some x \<Longrightarrow> rec' t = Some x"
  shows "solve_body rec s = Some x \<Longrightarrow> solve_body rec' s = Some x"
  using try_candidates_mono [of rec rec', OF assms]
  by (auto simp add: solve_body_def split: if_splits sum.splits prod.splits)

lemma solve_Suc: "solve depth s = Some x \<Longrightarrow> solve (Suc depth) s = Some x"
proof (induction depth arbitrary: s x)
  case 0
  then have "solve_body (\<lambda>s'. None) s = Some x"
    by simp
  then have "solve_body (solve 0) s = Some x"
    by (rule solve_body_mono [rotated]) simp
  then show ?case
    by (simp only: solve.simps(2))
next
  case (Suc depth)
  then have "solve_body (solve depth) s = Some x"
    by simp
  then have "solve_body (solve (Suc depth)) s = Some x"
    by (rule solve_body_mono [rotated]) (rule Suc.IH)
  then show ?case
    by (simp only: solve.simps(2))
qed

lemma solve_mono:
  assumes "solve depth s = Some x" and "depth \<le> depth'"
  shows "solve depth' s = Some x"
  using assms(2,1)
proof (induction rule: dec_induct)
  case base
  then show ?case .
next
  case (step n)
  then show ?case
    by (intro solve_Suc) simp
qed

lemma slots_nonneg:
  "invariant g s \<Longrightarrow> r < 9 \<Longrightarrow> c < 9 \<Longrightarrow> n < 9 \<Longrightarrow> 0 \<le> constraints s r c n"
  by (simp add: invariantD(5) sum_nonneg cell_contrib_nonneg)

lemma filter_eq_upt: "v < k \<Longrightarrow> filter (\<lambda>n. n = v) [0..<k] = [v]"
proof (induction k)
  case 0
  then show ?case by simp
next
  case (Suc k)
  show ?case
  proof (cases "v = k")
    case True
    have "filter (\<lambda>n. n = k) [0..<k] = []"
      by (simp add: filter_empty_conv)
    with True show ?thesis by simp
  next
    case False
    with Suc show ?thesis by simp
  qed
qed

lemma committed_slot_zero_iff:
  assumes inv: "invariant g s" and held: "g (r, c) = Some v" and n: "n < 9"
  shows "constraints s r c n = 0 \<longleftrightarrow> n = v"
proof -
  have b: "r < 9" "c < 9" "v < 9"
    using wf_gridD [OF invariantD(1) [OF inv] held] by simp_all
  have "\<not> peer (r, c) q" if "g q = Some v" for q
    by (rule consistentD [OF invariantD(2) [OF inv] held that])
  then show ?thesis
    using slot_zero_iff [OF inv b(1,2) n] held by auto
qed

lemma committed_possibilities:
  assumes inv: "invariant g s" and held: "g (r, c) = Some v"
  shows "get_possibilities_at s r c = [v]"
proof -
  have v: "v < 9"
    using wf_gridD [OF invariantD(1) [OF inv] held] by simp
  have "filter (\<lambda>n. constraints s r c n = 0) [0..<9] = filter (\<lambda>n. n = v) [0..<9]"
    using committed_slot_zero_iff [OF inv held] by (intro filter_cong) simp_all
  then show ?thesis
    using v by (simp add: get_possibilities_at_eq filter_eq_upt)
qed

lemma shown_grid_eq:
  assumes inv: "invariant g s" and held: "g p = Some v"
  shows "shown_grid s p = Some v"
proof -
  have "g (fst p, snd p) = Some v"
    using held by simp
  from committed_possibilities [OF inv this] show ?thesis
    by (cases p) (simp add: shown_grid_def shown_value_def)
qed

lemma holds_once_cong:
  "(\<And>p. p \<in> set ps \<Longrightarrow> h p = h' p) \<Longrightarrow> holds_once h ps = holds_once h' ps"
proof -
  assume eq: "\<And>p. p \<in> set ps \<Longrightarrow> h p = h' p"
  have "filter (\<lambda>p. h p = Some v) ps = filter (\<lambda>p. h' p = Some v) ps" for v
    using eq by (intro filter_cong) simp_all
  then show ?thesis
    by (simp add: holds_once_def)
qed

lemma group_in_cells:
  "r < 9 \<Longrightarrow> set (row_cells r) \<subseteq> set cells"
  "c < 9 \<Longrightarrow> set (col_cells c) \<subseteq> set cells"
  "br < 3 \<Longrightarrow> bc < 3 \<Longrightarrow> set (box_cells br bc) \<subseteq> set cells"
proof -
  show "r < 9 \<Longrightarrow> set (row_cells r) \<subseteq> set cells"
    by (auto simp add: row_cells_facts)
  show "c < 9 \<Longrightarrow> set (col_cells c) \<subseteq> set cells"
    by (auto simp add: col_cells_facts)
  show "set (box_cells br bc) \<subseteq> set cells" if br: "br < 3" and bc: "bc < 3"
  proof
    fix p assume "p \<in> set (box_cells br bc)"
    then have "fst p div 3 = br" and "snd p div 3 = bc"
      by (simp_all add: box_cells_facts)
    with br bc have "fst p div 3 < 3" and "snd p div 3 < 3"
      by simp_all
    then have "fst p < 9" and "snd p < 9"
      by (simp_all add: div_less_iff_less_mult)
    then show "p \<in> set cells"
      by simp
  qed
qed

lemma solved_grid_cong:
  assumes eq: "\<And>p. p \<in> set cells \<Longrightarrow> h p = h' p" and sol: "solved_grid h"
  shows "solved_grid h'"
proof -
  have "filled h'"
    using solved_gridD(1) [OF sol] eq
    unfolding filled_def list_all_iff by (metis (no_types, lifting))
  moreover have "holds_once h' (row_cells r)" if "r < 9" for r
    using solved_gridD(2) [OF sol that] group_in_cells(1) [OF that] eq
      holds_once_cong [of "row_cells r" h h'] by blast
  moreover have "holds_once h' (col_cells c)" if "c < 9" for c
    using solved_gridD(3) [OF sol that] group_in_cells(2) [OF that] eq
      holds_once_cong [of "col_cells c" h h'] by blast
  moreover have "holds_once h' (box_cells br bc)" if "br < 3" and "bc < 3" for br bc
    using solved_gridD(4) [OF sol that] group_in_cells(3) [OF that] eq
      holds_once_cong [of "box_cells br bc" h h'] by blast
  ultimately show ?thesis
    by (simp add: solved_grid_def list_all_iff)
qed

lemma full_state_shown:
  assumes inv: "invariant h s" and full: "\<forall>p \<in> set cells. h p \<noteq> None"
  shows "solved_grid (shown_grid s)" and "h \<subseteq>\<^sub>m shown_grid s"
    and "ninserted s = 81" and "\<And>r c. r < 9 \<Longrightarrow> c < 9 \<Longrightarrow> inserted s r c = 1"
proof -
  note d = invariantD [OF inv]
  have eq: "h p = shown_grid s p" if "p \<in> set cells" for p
  proof -
    from bspec [OF full that] obtain v where "h p = Some v"
      by auto
    with shown_grid_eq [OF inv this] show ?thesis
      by simp
  qed
  have "solved_grid h"
    using d(1,2) full by (rule solved_gridI)
  with eq show "solved_grid (shown_grid s)"
    by (rule solved_grid_cong)
  show "h \<subseteq>\<^sub>m shown_grid s"
    unfolding map_le_def
  proof
    fix p assume "p \<in> dom h"
    then obtain v where "h p = Some v"
      by auto
    with shown_grid_eq [OF inv this] show "h p = shown_grid s p"
      by simp
  qed
  show "ninserted s = 81"
    using d(4) full_grid_iff [OF d(1)] full by simp
  show "inserted s r c = 1" if "r < 9" and "c < 9" for r c
  proof -
    have "(r, c) \<in> set cells"
      using that by simp
    from bspec [OF full this] show ?thesis
      using d(3) [OF that] by simp
  qed
qed

lemma solve_result:
  "reach g s \<Longrightarrow> 81 - card (dom g) \<le> depth \<Longrightarrow> outcome_ok g s (solve depth s)"
  using reach_invariant [of g s] by (simp add: solve_ok)

lemma outcome_okD:
  assumes "outcome_ok g s res"
  obtains s' h where "res = Some (Inr (1, s'))" and "invariant h s'" and "g \<subseteq>\<^sub>m h"
      and "\<forall>p \<in> set cells. h p \<noteq> None"
    | k where "res = Some (Inr (0, s\<lparr>nbacktracks := k\<rparr>))" and "\<not> (\<exists>h. completion g h)"
  using assms unfolding outcome_ok_def by blast

lemma example_solved: "solved_grid example_grid"
  by code_simp

lemma example_completion: "completion (\<lambda>p. None) example_grid"
  by (simp add: completion_def example_solved map_le_def)

lemma reach_extend:
  assumes r: "reach g s" and b: "row < 9" "col < 9" "number < 9"
    and none: "g (row, col) = None"
    and nopeer: "\<And>q. g q = Some number \<Longrightarrow> \<not> peer (row, col) q"
  shows "\<exists>s'. insert_number_at s row col number = Inr s' \<and> reach (g((row, col) \<mapsto> number)) s'"
proof -
  have inv: "invariant g s"
    using reach_invariant [OF r] by simp
  have free: "inserted s row col = 0"
    using invariant_flag [OF inv b(1,2)] none by simp
  have zero: "constraints s row col number = 0"
    using slot_zero_iff [OF inv b] none nopeer by simp
  obtain s' where s': "insert_number_at s row col number = Inr s'"
    using invariant_commit [OF inv b none zero] by blast
  have "reach (g((row, col) \<mapsto> number)) s'"
    using r b free zero s' by (intro reach_commit) simp_all
  with s' show ?thesis
    by blast
qed

lemma row_prefix_reach: "k \<le> 8 \<Longrightarrow> \<exists>s. reach (row_prefix_grid k) s"
proof (induction k)
  case 0
  have "row_prefix_grid 0 = (\<lambda>p. None)"
    by (simp add: row_prefix_grid_def)
  then show ?case
    using reach_new by auto
next
  case (Suc k)
  then obtain s where s: "reach (row_prefix_grid k) s"
    by auto
  have "\<exists>s'. insert_number_at s 0 k k = Inr s' \<and> reach ((row_prefix_grid k)((0, k) \<mapsto> k)) s'"
    using Suc.prems
    by (intro reach_extend [OF s]) (auto simp add: row_prefix_grid_def split: if_splits)
  moreover have "(row_prefix_grid k)((0, k) \<mapsto> k) = row_prefix_grid (Suc k)"
    by (auto simp add: row_prefix_grid_def fun_eq_iff less_Suc_eq)
  ultimately show ?case
    by auto
qed

lemma no_candidate_fails:
  assumes inv: "invariant g s" and b: "r < 9" "c < 9" and none: "g (r, c) = None"
    and blocked: "\<And>n. n < 9 \<Longrightarrow> \<exists>q. g q = Some n \<and> peer (r, c) q"
  shows "solve depth s = Some (Inr (0, s\<lparr>nbacktracks := nbacktracks s + 1\<rparr>))"
proof -
  have cell: "(r, c) \<in> set cells"
    using b by simp
  have "card (dom g) \<noteq> 81"
    unfolding full_grid_iff [OF invariantD(1) [OF inv]] using cell none by blast
  then have notfull: "ninserted s \<noteq> 81"
    using invariantD(4) [OF inv] by simp
  have "constraints s r c n \<noteq> 0" if "n < 9" for n
    using slot_zero_iff [OF inv b that] blocked [OF that] by blast
  then have "filter (\<lambda>n. constraints s r c n = 0) [0..<9] = []"
    by (simp add: filter_empty_conv)
  then have count: "poss_count_at s (r, c) = 0"
    by (simp add: poss_count_at_def get_possibilities_at_eq)
  have unc: "uncommitted s (r, c)"
    using invariant_flag [OF inv b] none by (simp add: uncommitted_def)
  from get_most_constrained_cell_result [OF cell unc]
  obtain row col where sel:
      "get_most_constrained_cell s = Inr (row, col, get_possibilities_at s row col)"
      "\<forall>q \<in> set cells. uncommitted s q \<longrightarrow> poss_count_at s (row, col) \<le> poss_count_at s q"
    by blast
  from bspec [OF sel(2) cell] unc count have "get_possibilities_at s row col = []"
    by (simp add: poss_count_at_def)
  then have "solve_body rec s = Some (Inr (0, s\<lparr>nbacktracks := nbacktracks s + 1\<rparr>))" for rec
    using notfull sel(1) by (simp add: solve_body_def)
  then show ?thesis
    by (cases depth) simp_all
qed

lemma after_first_commit_reach:
  "insert_number_at new_sudoku 0 0 0 = Inr after_first_commit"
  "reach first_commit_grid after_first_commit"
proof -
  obtain s' where s': "insert_number_at new_sudoku 0 0 0 = Inr s'"
      "reach ((\<lambda>p. None)((0, 0) \<mapsto> 0)) s'"
    using reach_extend [OF reach_new, of 0 0 0] by auto
  then show "insert_number_at new_sudoku 0 0 0 = Inr after_first_commit"
    by (simp add: after_first_commit_def)
  moreover have "(\<lambda>p. None)((0, 0) \<mapsto> 0) = first_commit_grid"
    by (auto simp add: first_commit_grid_def fun_eq_iff)
  ultimately show "reach first_commit_grid after_first_commit"
    using s' by simp
qed


lemma sum_cells_indicator:
  "(\<Sum>p \<in> set cells. if P p then 1 else 0) = int (length (filter P cells))"
proof -
  have "(\<Sum>p \<in> set cells. if P p then 1 else (0::int)) = int (card (set cells \<inter> {p. P p}))"
    by (simp add: sum.If_cases)
  also have "set cells \<inter> {p. P p} = {p. P p} \<inter> set cells"
    by blast
  finally show ?thesis
    by (simp only: distinct_length_filter [OF distinct_cells])
qed

lemma sum_cells_single:
  assumes "a \<in> set cells"
  shows "(\<Sum>p \<in> set cells. if p = a \<and> Q then 1 else 0) = (if Q then 1 else (0::int))"
proof -
  have "(\<Sum>p \<in> set cells. if p = a \<and> Q then 1 else (0::int)) =
          (\<Sum>p \<in> set cells. if p = a then (if Q then 1 else 0) else 0)"
    by (intro sum.cong) auto
  also have "\<dots> = (if a \<in> set cells then (if Q then 1 else 0) else 0)"
    by (rule sum.delta) simp
  finally show ?thesis
    using assms by (simp only: if_True)
qed

lemma cell_contrib_split:
  assumes "v < 9" and "r < 9" and "c < 9"
  shows "cell_contrib g r c v p =
           (if p \<noteq> (r, c) \<and> fst p = r \<and> g p = Some v then 1 else 0)
         + (if p \<noteq> (r, c) \<and> snd p = c \<and> g p = Some v then 1 else 0)
         + (if p \<noteq> (r, c) \<and> same_box p (r, c) \<and> g p = Some v then 1 else 0)
         + (if p = (r, c) \<and> \<not> (g (r, c) = None \<or> g (r, c) = Some v) then 1 else 0)"
proof (cases "g p")
  case None
  then show ?thesis
    by (auto simp add: cell_contrib_def)
next
  case (Some w)
  show ?thesis
  proof (cases "p = (r, c)")
    case True
    then show ?thesis
      using Some assms by (auto simp add: cell_contrib_def contrib_own)
  next
    case False
    then have ne: "(r, c) \<noteq> (fst p, snd p)"
      by auto
    have "cell_contrib g r c v p = contrib (fst p) (snd p) w r c v"
      using Some by (simp add: cell_contrib_def)
    also have "\<dots> =
        (if v = w then
           (if r = fst p then 1 else 0) + (if c = snd p then 1 else 0)
             + (if same_box (r, c) (fst p, snd p) then 1 else 0)
         else 0)"
      by (rule contrib_other [OF ne assms(2,3)])
    finally show ?thesis
      using False Some same_box_sym [of p "(r, c)"] by (cases "v = w") auto
  qed
qed


lemma peers_holding_empty_iff:
  assumes "wf_grid g"
  shows "peers_holding g r c v = [] \<longleftrightarrow> (\<forall>q. g q = Some v \<longrightarrow> \<not> peer (r, c) q)"
proof -
  have "peers_holding g r c v = [] \<longleftrightarrow> (\<forall>q \<in> set cells. \<not> (peer (r, c) q \<and> g q = Some v))"
    by (simp only: peers_holding_def filter_empty_conv)
  also have "\<dots> \<longleftrightarrow> (\<forall>q. g q = Some v \<longrightarrow> \<not> peer (r, c) q)"
  proof -
    have "q \<in> set cells" if "g q = Some v" for q
      using wf_gridD [OF assms that] by simp
    then show ?thesis
      by blast
  qed
  finally show ?thesis .
qed

lemma slot_count:
  assumes inv: "invariant g s" and b: "r < 9" "c < 9" "v < 9"
  shows "constraints s r c v =
           int (length (holders g r c v (\<lambda>q. fst q = r)))
         + int (length (holders g r c v (\<lambda>q. snd q = c)))
         + int (length (holders g r c v (\<lambda>q. same_box q (r, c))))
         + (if g (r, c) = None \<or> g (r, c) = Some v then 0 else 1)"
proof -
  have cell: "(r, c) \<in> set cells"
    using b by simp
  have "constraints s r c v = sum (cell_contrib g r c v) (set cells)"
    using invariantD(5) [OF inv b] .
  also have "\<dots> =
      (\<Sum>p \<in> set cells.
          (if p \<noteq> (r, c) \<and> fst p = r \<and> g p = Some v then 1 else 0)
        + (if p \<noteq> (r, c) \<and> snd p = c \<and> g p = Some v then 1 else 0)
        + (if p \<noteq> (r, c) \<and> same_box p (r, c) \<and> g p = Some v then 1 else 0)
        + (if p = (r, c) \<and> \<not> (g (r, c) = None \<or> g (r, c) = Some v) then 1 else 0))"
    by (rule sum.cong [OF refl]) (rule cell_contrib_split [OF b(3,1,2)])
  also have "\<dots> =
      (\<Sum>p \<in> set cells. if p \<noteq> (r, c) \<and> fst p = r \<and> g p = Some v then 1 else 0)
    + (\<Sum>p \<in> set cells. if p \<noteq> (r, c) \<and> snd p = c \<and> g p = Some v then 1 else 0)
    + (\<Sum>p \<in> set cells. if p \<noteq> (r, c) \<and> same_box p (r, c) \<and> g p = Some v then 1 else 0)
    + (\<Sum>p \<in> set cells. if p = (r, c) \<and> \<not> (g (r, c) = None \<or> g (r, c) = Some v) then 1 else 0)"
    by (simp only: sum.distrib)
  also have "\<dots> =
      (\<Sum>p \<in> set cells. if p \<noteq> (r, c) \<and> fst p = r \<and> g p = Some v then 1 else 0)
    + (\<Sum>p \<in> set cells. if p \<noteq> (r, c) \<and> snd p = c \<and> g p = Some v then 1 else 0)
    + (\<Sum>p \<in> set cells. if p \<noteq> (r, c) \<and> same_box p (r, c) \<and> g p = Some v then 1 else 0)
    + (if \<not> (g (r, c) = None \<or> g (r, c) = Some v) then 1 else 0)"
    by (simp only: sum_cells_single [OF cell])
  also have "\<dots> =
      int (length (holders g r c v (\<lambda>q. fst q = r)))
    + int (length (holders g r c v (\<lambda>q. snd q = c)))
    + int (length (holders g r c v (\<lambda>q. same_box q (r, c))))
    + (if \<not> (g (r, c) = None \<or> g (r, c) = Some v) then 1 else 0)"
    by (simp only: sum_cells_indicator holders_def)
  finally show ?thesis
    by simp
qed

lemma contrib_first_commit: "contrib 0 0 0 0 2 0 = 2"
  by (simp_all add: contrib_def hits_def line_hits_def box_hits_def)

lemma after_first_commit_slots:
  "constraints after_first_commit r c n = contrib 0 0 0 r c n"
proof -
  obtain t where t: "change_state_at new_sudoku 0 0 0 1 = Inr t"
      "\<And>r c n. constraints t r c n = constraints new_sudoku r c n + contrib 0 0 0 r c n"
    using change_state_at_result [of 1 0 0 0 new_sudoku] by (auto simp add: new_sudoku_def)
  then have "t = after_first_commit"
    using after_first_commit_reach(1) by (simp add: insert_number_at_def)
  with t(2) show ?thesis
    by (simp add: new_sudoku_def)
qed

lemma first_commit_peers: "peers_holding first_commit_grid 0 2 0 = [(0, 0)]"
  by code_simp

lemma length_holders_le: "length (holders g r c v P) \<le> 81"
proof -
  have "length (holders g r c v P) \<le> length cells"
    unfolding holders_def by (rule length_filter_le)
  also have "length cells = 81"
    by (simp add: cells_def)
  finally show ?thesis .
qed

lemma slots_bounded:
  assumes "invariant g s" and "r < 9" and "c < 9" and "v < 9"
  shows "0 \<le> constraints s r c v \<and> constraints s r c v \<le> 244"
  using slot_count [OF assms] slots_nonneg [OF assms]
    length_holders_le [of g r c v "\<lambda>q. fst q = r"]
    length_holders_le [of g r c v "\<lambda>q. snd q = c"]
    length_holders_le [of g r c v "\<lambda>q. same_box q (r, c)"]
  by (simp split: if_splits)

lemma try_candidates_frame:
  assumes rec: "\<And>g' t. invariant g' t \<Longrightarrow> card (dom g') = Suc (card (dom g)) \<Longrightarrow>
                  rec t = None \<or> outcome_ok g' t (rec t)"
    and b: "row < 9" "col < 9" and none: "g (row, col) = None"
  shows "invariant g s \<Longrightarrow> \<forall>p \<in> set ps. p < 9 \<and> constraints s row col p = 0 \<Longrightarrow>
         try_candidates rec s row col ps =
           try_candidates (\<lambda>t. if ninserted t = ninserted s + 1 \<and> (\<exists>g'. invariant g' t) then rec t else None)
             s row col ps"
proof (induction ps arbitrary: s)
  case Nil
  show ?case by simp
next
  case (Cons p ps)
  let ?g = "g((row, col) \<mapsto> p)"
  let ?rec' = "\<lambda>t. if ninserted t = ninserted s + 1 \<and> (\<exists>g'. invariant g' t) then rec t else None"
  have p: "p < 9" "constraints s row col p = 0"
    using Cons.prems(2) by simp_all
  obtain s1 where s1: "insert_number_at s row col p = Inr s1" "invariant ?g s1"
    using invariant_commit [OF Cons.prems(1) b p(1) none p(2)] by blast
  have "dom ?g = insert (row, col) (dom g)" and "(row, col) \<notin> dom g"
    using none by auto
  then have card: "card (dom ?g) = Suc (card (dom g))"
    using finite_dom_wf [OF invariantD(1) [OF Cons.prems(1)]] by simp
  then have "ninserted s1 = ninserted s + 1"
    using invariantD(4) [OF s1(2)] invariantD(4) [OF Cons.prems(1)] by simp
  then have same: "?rec' s1 = rec s1"
    using s1(2) by auto
  from rec [OF s1(2) card] show ?case
  proof
    assume "rec s1 = None"
    then show ?thesis
      using s1(1) same by simp
  next
    assume "outcome_ok ?g s1 (rec s1)"
    then show ?thesis
    proof (cases rule: outcome_okD)
      case (1 s2 h)
      then show ?thesis
        using s1(1) same by simp
    next
      case (2 k)
      let ?s3 = "s\<lparr>nbacktracks := k\<rparr>"
      have free: "inserted s row col = 0"
        using invariant_flag [OF Cons.prems(1) b] none by simp
      have rem: "remove_number_at (s1\<lparr>nbacktracks := k\<rparr>) row col p = Inr ?s3"
        using b p free s1(1) by (intro insert_remove_restores)
      have "invariant g ?s3"
        using Cons.prems(1) by simp
      moreover have "\<forall>p \<in> set ps. p < 9 \<and> constraints ?s3 row col p = 0"
        using Cons.prems(2) by simp
      ultimately have "try_candidates rec ?s3 row col ps =
          try_candidates (\<lambda>t. if ninserted t = ninserted ?s3 + 1 \<and> (\<exists>g'. invariant g' t) then rec t else None)
            ?s3 row col ps"
        by (rule Cons.IH)
      then have "try_candidates rec ?s3 row col ps = try_candidates ?rec' ?s3 row col ps"
        by simp
      then show ?thesis
        using s1(1) same 2(1) rem by simp
    qed
  qed
qed

lemma solve_body_frame:
  assumes rec: "\<And>g' t. invariant g' t \<Longrightarrow> card (dom g') = Suc (card (dom g)) \<Longrightarrow>
                  rec t = None \<or> outcome_ok g' t (rec t)"
    and inv: "invariant g s"
  shows "solve_body rec s =
           solve_body (\<lambda>t. if ninserted t = ninserted s + 1 \<and> (\<exists>g'. invariant g' t) then rec t else None) s"
proof (cases "get_most_constrained_cell s")
  case (Inl e)
  then show ?thesis
    by (simp add: solve_body_def)
next
  case (Inr sel)
  obtain row col ps where sel: "sel = (row, col, ps)"
    by (cases sel)
  show ?thesis
  proof (cases "ninserted s = 81 \<or> ps = []")
    case True
    then show ?thesis
      using Inr sel by (auto simp add: solve_body_def)
  next
    case False
    then have "card (dom g) \<noteq> 81"
      using invariantD(4) [OF inv] by simp
    then obtain p0 where p0: "p0 \<in> set cells" "g p0 = None"
      unfolding full_grid_iff [OF invariantD(1) [OF inv]] by blast
    then have "uncommitted s p0"
      using invariantD(3) [OF inv, of "fst p0" "snd p0"] by (simp add: uncommitted_def)
    from get_most_constrained_cell_result [OF p0(1) this] Inr sel
    have ps: "ps = get_possibilities_at s row col" and cell: "(row, col) \<in> set cells"
      and unc: "uncommitted s (row, col)"
      by auto
    have b: "row < 9" "col < 9"
      using cell by simp_all
    have none: "g (row, col) = None"
      using unc invariant_flag [OF inv b] by (simp add: uncommitted_def)
    have "\<forall>p \<in> set ps. p < 9 \<and> constraints s row col p = 0"
      by (simp add: ps get_possibilities_at_eq)
    from try_candidates_frame [of g rec row col s ps, OF rec b none inv this]
    show ?thesis
      using False Inr sel by (simp add: solve_body_def)
  qed
qed

lemma solve_frame:
  assumes inv: "invariant g s"
  shows "solve (Suc depth) s =
           solve_body (\<lambda>t. if ninserted t = ninserted s + 1 \<and> (\<exists>g'. invariant g' t)
                          then solve depth t else None) s"
proof -
  have "solve depth t = None \<or> outcome_ok g' t (solve depth t)" if "invariant g' t" for g' t
  proof (cases "solve depth t")
    case None
    then show ?thesis by simp
  next
    case (Some x)
    then have "solve (max depth 81) t = Some x"
      by (rule solve_mono) simp
    moreover have "outcome_ok g' t (solve (max depth 81) t)"
      using that by (intro solve_ok) simp_all
    ultimately show ?thesis
      using Some by simp
  qed
  then have "solve_body (solve depth) s =
      solve_body (\<lambda>t. if ninserted t = ninserted s + 1 \<and> (\<exists>g'. invariant g' t)
                     then solve depth t else None) s"
    using inv by (intro solve_body_frame [of g]) simp_all
  then show ?thesis
    by simp
qed

lemma backtrack_grid_Some:
  "backtrack_grid q = Some n \<longleftrightarrow> (n < 7 \<and> q = (0, n)) \<or> (n = 8 \<and> q = (1, 7))"
  by (cases q) (auto simp add: backtrack_grid_def row_prefix_grid_def split: if_splits)

lemma backtrack_grid_None: "backtrack_grid (0, 7) = None" "backtrack_grid (0, 8) = None"
  by (simp_all add: backtrack_grid_def row_prefix_grid_def)

lemma backtrack_reach: "\<exists>s. reach backtrack_grid s"
proof -
  obtain s where s: "reach (row_prefix_grid 7) s"
    using row_prefix_reach [of 7] by auto
  have "\<exists>s'. insert_number_at s 1 7 8 = Inr s' \<and> reach ((row_prefix_grid 7)((1, 7) \<mapsto> 8)) s'"
    by (intro reach_extend [OF s]) (auto simp add: row_prefix_grid_def split: if_splits)
  then show ?thesis
    by (auto simp add: backtrack_grid_def)
qed

lemma backtrack_select:
  assumes inv: "invariant backtrack_grid s"
  shows "get_most_constrained_cell s = Inr (0, 7, [7])"
proof -
  have seven: "constraints s r c 7 = 0" if "r < 9" and "c < 9" and "backtrack_grid (r, c) = None"
    for r c
    using slot_zero_iff [OF inv that(1,2), of 7] that(3) by (simp add: backtrack_grid_Some)
  have "constraints s 0 7 n = 0 \<longleftrightarrow> n = 7" if "n < 9" for n
  proof (cases "n = 7")
    case True
    then show ?thesis
      using seven [of 0 7] by (simp add: backtrack_grid_None)
  next
    case False
    have "\<exists>q. backtrack_grid q = Some n \<and> peer (0, 7) q"
    proof (cases "n = 8")
      case True
      have "backtrack_grid (1, 7) = Some 8 \<and> peer (0, 7) (1, 7)"
        by (simp add: backtrack_grid_Some peer_def)
      with True show ?thesis by blast
    next
      case False
      with \<open>n \<noteq> 7\<close> that have "backtrack_grid (0, n) = Some n \<and> peer (0, 7) (0, n)"
        by (simp add: backtrack_grid_Some peer_def)
      then show ?thesis by blast
    qed
    then have "constraints s 0 7 n \<noteq> 0"
      using slot_zero_iff [OF inv _ _ that, of 0 7] by auto
    with False show ?thesis by simp
  qed
  then have "filter (\<lambda>n. constraints s 0 7 n = 0) [0..<9] = filter (\<lambda>n. n = 7) [0..<9]"
    by (intro filter_cong) simp_all
  then have poss: "get_possibilities_at s 0 7 = [7]"
    by (simp add: get_possibilities_at_eq filter_eq_upt)
  have cell: "(0, 7) \<in> set cells"
    by simp
  have unc: "uncommitted s (0, 7)"
    using invariant_flag [OF inv, of 0 7] by (simp add: uncommitted_def backtrack_grid_None)
  from get_most_constrained_cell_result [OF cell unc]
  obtain row col where sel:
      "get_most_constrained_cell s = Inr (row, col, get_possibilities_at s row col)"
      "(row, col) \<in> set cells" "uncommitted s (row, col)"
      "\<forall>q \<in> set cells. uncommitted s q \<longrightarrow>
         poss_count_at s (row, col) \<le> poss_count_at s q
         \<and> (poss_count_at s q = poss_count_at s (row, col) \<longrightarrow>
              (row, col) = q \<or> scanned_before (row, col) q)"
    by blast
  have b: "row < 9" "col < 9"
    using sel(2) by simp_all
  have none: "backtrack_grid (row, col) = None"
    using sel(3) invariant_flag [OF inv b] by (simp add: uncommitted_def)
  have "7 \<in> set (get_possibilities_at s row col)"
    using seven [OF b none] by (simp add: get_possibilities_at_eq)
  then have "0 < poss_count_at s (row, col)"
    by (auto simp add: poss_count_at_def)
  moreover from bspec [OF sel(4) cell] unc
  have "poss_count_at s (row, col) \<le> poss_count_at s (0, 7)"
    and tie: "poss_count_at s (0, 7) = poss_count_at s (row, col) \<Longrightarrow>
         (row, col) = (0, 7) \<or> scanned_before (row, col) (0, 7)"
    by simp_all
  moreover have one: "poss_count_at s (0, 7) = 1"
    by (simp add: poss_count_at_def poss)
  ultimately have "poss_count_at s (0, 7) = poss_count_at s (row, col)"
    by simp
  from tie [OF this] have "(row, col) = (0, 7)"
  proof
    assume "scanned_before (row, col) (0, 7)"
    then have "row = 0" and "col < 7"
      by (simp_all add: scanned_before_def)
    then have "backtrack_grid (row, col) = Some col"
      by (simp add: backtrack_grid_Some)
    with none show ?thesis by simp
  qed
  with sel(1) poss show ?thesis
    by simp
qed

lemma backtrack_solve:
  assumes inv: "invariant backtrack_grid s"
  shows "solve 0 s = None"
    and "solve (Suc 0) s = Some (Inr (0, s\<lparr>nbacktracks := nbacktracks s + 1\<rparr>))"
proof -
  let ?g = "backtrack_grid((0, 7) \<mapsto> 7)"
  have "card (dom backtrack_grid) \<noteq> 81"
    unfolding full_grid_iff [OF invariantD(1) [OF inv]]
    using backtrack_grid_None(1) by (intro notI) (drule bspec [of _ _ "(0, 7)"], simp_all)
  then have notfull: "ninserted s \<noteq> 81"
    using invariantD(4) [OF inv] by simp
  have body: "solve_body rec s = try_candidates rec s 0 7 [7]" for rec
    using notfull backtrack_select [OF inv] by (simp add: solve_body_def)
  have free: "inserted s 0 7 = 0"
    using invariant_flag [OF inv, of 0 7] by (simp add: backtrack_grid_None)
  have zero: "constraints s 0 7 7 = 0"
    using slot_zero_iff [OF inv, of 0 7 7] by (simp add: backtrack_grid_None backtrack_grid_Some)
  obtain s1 where s1: "insert_number_at s 0 7 7 = Inr s1" "invariant ?g s1"
      "nbacktracks s1 = nbacktracks s"
    using invariant_commit [OF inv _ _ _ backtrack_grid_None(1) zero] by auto
  show "solve 0 s = None"
    using s1(1) by (simp add: body)
  have blocked: "\<exists>q. ?g q = Some n \<and> peer (0, 8) q" if "n < 9" for n
  proof -
    have "n < 7 \<or> n = 7 \<or> n = 8"
      using that by arith
    then consider "n < 7" | "n = 7" | "n = 8"
      by blast
    then show ?thesis
    proof cases
      case 1
      then have "?g (0, n) = Some n \<and> peer (0, 8) (0, n)"
        by (simp add: backtrack_grid_Some peer_def)
      then show ?thesis by blast
    next
      case 2
      then have "?g (0, 7) = Some n \<and> peer (0, 8) (0, 7)"
        by (simp add: peer_def)
      then show ?thesis by blast
    next
      case 3
      then have "?g (1, 7) = Some n \<and> peer (0, 8) (1, 7)"
        by (simp add: backtrack_grid_Some peer_def same_box_def)
      then show ?thesis by blast
    qed
  qed
  have none: "?g (0, 8) = None"
    by (simp add: backtrack_grid_None)
  have dead: "solve 0 s1 = Some (Inr (0, s1\<lparr>nbacktracks := nbacktracks s1 + 1\<rparr>))"
    using s1(2) _ _ none blocked by (rule no_candidate_fails) simp_all
  have rem: "remove_number_at (s1\<lparr>nbacktracks := nbacktracks s1 + 1\<rparr>) 0 7 7
               = Inr (s\<lparr>nbacktracks := nbacktracks s1 + 1\<rparr>)"
    using free zero s1(1) by (intro insert_remove_restores) simp_all
  show "solve (Suc 0) s = Some (Inr (0, s\<lparr>nbacktracks := nbacktracks s + 1\<rparr>))"
    using s1(1,3) dead rem by (simp add: body)
qed

section \<open>The properties of the specification\<close>

text \<open>
  C1. On a state built from the empty state by valid commits, with \<open>g\<close> the assignment
  they made, \<open>solve\<close> returns, and it returns 1 exactly when \<open>g\<close> has a completion:
  a full grid that extends \<open>g\<close> and holds each value once in every row, column and
  box. Otherwise it returns 0. The recursion bound \<open>N * N\<close> is enough for the search
  to finish.
\<close>

theorem solve_iff_completion:
  "commits g s \<Longrightarrow> N * N \<le> depth \<Longrightarrow>
   (\<exists>b s'. solve depth s = Some (Inr (b, s'))
      \<and> (b = 1 \<longleftrightarrow> (\<exists>h. completion g h)) \<and> (b = 0 \<or> b = 1))"
proof -
  assume c: "commits g s" and d: "N * N \<le> depth"
  have "outcome_ok g s (solve depth s)"
    using commits_reach [OF c] d by (intro solve_result) simp_all
  then show ?thesis
  proof (cases rule: outcome_okD)
    case (1 s' h)
    have "solved_grid h"
      using invariantD(1,2) [OF 1(2)] 1(4) by (rule solved_gridI)
    with 1(3) have "completion g h"
      by (simp add: completion_def)
    with 1(1) show ?thesis
      by blast
  next
    case (2 k)
    then show ?thesis
      by simp
  qed
qed

theorem solve_iff_completion_witness:
  "\<exists>s'. solve (N * N) new_sudoku = Some (Inr (1, s'))"
  using solve_iff_completion [OF commits_new le_refl] example_completion by blast

text \<open>
  C2. When \<open>solve\<close> returns 1 on a reachable state, all 81 cells of the resulting state
  are committed, the values it shows form a grid in which every row, column and box holds
  each value exactly once, and that grid extends the assignment at entry.
\<close>

theorem solve_success_solved:
  "reach g s \<Longrightarrow> solve depth s = Some (Inr (b, s')) \<Longrightarrow> b \<noteq> 0 \<Longrightarrow>
   ninserted s' = int (N * N) \<and> (\<forall>r<N. \<forall>c<N. inserted s' r c = 1)
   \<and> solved_grid (shown_grid s') \<and> g \<subseteq>\<^sub>m shown_grid s'"
proof -
  assume r: "reach g s" and res: "solve depth s = Some (Inr (b, s'))" and b: "b \<noteq> 0"
  have res': "solve (max depth 81) s = Some (Inr (b, s'))"
    using res by (rule solve_mono) simp
  have "outcome_ok g s (solve (max depth 81) s)"
    using r by (intro solve_result) simp_all
  then show ?thesis
  proof (cases rule: outcome_okD)
    case (1 t h)
    with res' have t: "t = s'"
      by simp
    note f = full_state_shown [OF 1(2) [unfolded t] 1(4)]
    have "g \<subseteq>\<^sub>m shown_grid s'"
      using 1(3) f(2) by (rule map_le_trans)
    with f(1,3,4) show ?thesis
      by simp
  next
    case (2 k)
    with res' b show ?thesis
      by simp
  qed
qed

theorem solve_success_solved_witness:
  "\<exists>s'. solve (N * N) new_sudoku = Some (Inr (1, s'))
        \<and> ninserted s' = 81 \<and> solved_grid (shown_grid s')"
proof -
  have "outcome_ok (\<lambda>p. None) new_sudoku (solve (N * N) new_sudoku)"
    using reach_new by (rule solve_result) simp
  then obtain s' where s': "solve (N * N) new_sudoku = Some (Inr (1, s'))"
    using example_completion by (cases rule: outcome_okD) blast+
  from solve_success_solved [OF reach_new s'] show ?thesis
    using s' by simp
qed

text \<open>
  C3. For every state in which the cell \<open>(row, col)\<close> is uncommitted and the slot of
  \<open>number\<close> at that cell is zero, \<open>insert_number_at\<close> succeeds, and
  \<open>remove_number_at\<close> on its result succeeds and gives back the state itself: every
  flag, every counter and \<open>ninserted\<close> are those of the start.
\<close>

theorem insert_remove_inverse:
  "row < N \<Longrightarrow> col < N \<Longrightarrow> number < N \<Longrightarrow> inserted s row col = 0 \<Longrightarrow>
   constraints s row col number = 0 \<Longrightarrow>
   (\<exists>s1. insert_number_at s row col number = Inr s1
          \<and> remove_number_at s1 row col number = Inr s)"
proof -
  assume a: "row < N" "col < N" "number < N" "inserted s row col = 0"
    "constraints s row col number = 0"
  then obtain s1 where s1: "insert_number_at s row col number = Inr s1"
    using change_state_at_result [of 1 row col number s] by (auto simp add: insert_number_at_def)
  have "remove_number_at (s1\<lparr>nbacktracks := nbacktracks s1\<rparr>) row col number
          = Inr (s\<lparr>nbacktracks := nbacktracks s\<rparr>)"
    using insert_remove_restores [of row col number s s1 "nbacktracks s"] a s1
      change_state_at_result [of 1 row col number s]
    by (auto simp add: insert_number_at_def)
  with s1 show ?thesis by simp
qed

theorem insert_remove_inverse_witness:
  "insert_number_at new_sudoku 4 7 2 \<noteq> Inr new_sudoku \<and>
   (\<exists>s1. insert_number_at new_sudoku 4 7 2 = Inr s1
          \<and> remove_number_at s1 4 7 2 = Inr new_sudoku)"
proof -
  have "ninserted new_sudoku = 0"
    by (simp add: new_sudoku_def)
  moreover have "\<exists>s1. insert_number_at new_sudoku 4 7 2 = Inr s1 \<and> ninserted s1 = 1"
    using change_state_at_result [of 1 4 7 2 new_sudoku]
    by (auto simp add: insert_number_at_def new_sudoku_def)
  ultimately have "insert_number_at new_sudoku 4 7 2 \<noteq> Inr new_sudoku"
    by auto
  then show ?thesis
    using insert_remove_inverse [of 4 7 2 new_sudoku] by (simp add: new_sudoku_def)
qed

text \<open>
  C4. The two sweeps of \<open>change_state_at\<close> add \<open>type\<close> to the slot
  \<open>(row, col, number)\<close> exactly four times. The slot is zero before them whenever the
  sweeps are reached, so the last assertion, that the slot equals \<open>type * 4\<close>, never
  fails: 4 on a commit and -4 on a removal.
\<close>

theorem sweep_assertion_holds:
  "change_state_at s row col number type \<noteq> Inl Assert_Sweep \<and>
   (row < N \<and> col < N \<and> number < N \<longrightarrow>
      constraints (sweeps s row col number type) row col number
        = constraints s row col number + 4 * type)"
proof -
  have "row < N \<and> col < N \<and> number < N \<longrightarrow>
      constraints (sweeps s row col number type) row col number
        = constraints s row col number + 4 * type"
    by (simp add: sweeps_constraints hits_self)
  then show ?thesis
    by (auto simp add: change_state_at_def Let_def)
qed

theorem sweep_assertion_holds_witness:
  "change_state_at new_sudoku 4 7 2 (- 1) \<noteq> Inl Assert_Sweep \<and>
   constraints (sweeps new_sudoku 4 7 2 (- 1)) 4 7 2 = - 4"
  using sweep_assertion_holds [of new_sudoku 4 7 2 "- 1"] by (simp add: new_sudoku_def)

text \<open>
  C5, as the specification states it: the slot of \<open>v\<close> at a cell is the number of
  distinct committed peers that hold \<open>v\<close>. After the single commit of \<open>0\<close> at
  \<open>(0, 0)\<close> the cell \<open>(0, 2)\<close> has one such peer, and its slot for \<open>0\<close> is 2: the
  row sweep and the box sweep both reach it.
\<close>

theorem constraint_count_counterexample:
  "reach first_commit_grid after_first_commit
   \<and> length (peers_holding first_commit_grid 0 2 0) = 1
   \<and> constraints after_first_commit 0 2 0 = 2"
  by (simp add: after_first_commit_reach(2) first_commit_peers after_first_commit_slots
        contrib_first_commit(1))

text \<open>
  C5, amended. In a reachable state the slot of \<open>v\<close> at \<open>(row, col)\<close> is not negative
  and counts the other committed cells that hold \<open>v\<close> once for each group they share
  with \<open>(row, col)\<close>: once for the row, once for the column and once for the box, so a
  peer in the same row and box counts twice. It counts one more when \<open>(row, col)\<close>
  itself is committed with another value. It is zero exactly when no committed peer
  holds \<open>v\<close> and the cell is uncommitted or holds \<open>v\<close>.
\<close>

theorem constraint_count_meaning:
  "reach g s \<Longrightarrow> row < N \<Longrightarrow> col < N \<Longrightarrow> v < N \<Longrightarrow>
   constraints s row col v =
       int (length (holders g row col v (\<lambda>q. fst q = row)))
     + int (length (holders g row col v (\<lambda>q. snd q = col)))
     + int (length (holders g row col v (\<lambda>q. same_box q (row, col))))
     + (if g (row, col) = None \<or> g (row, col) = Some v then 0 else 1)
   \<and> 0 \<le> constraints s row col v
   \<and> (constraints s row col v = 0 \<longleftrightarrow>
        (g (row, col) = None \<or> g (row, col) = Some v) \<and> peers_holding g row col v = [])"
proof -
  assume r: "reach g s" and "row < N" and "col < N" and "v < N"
  then have b: "row < 9" "col < 9" "v < 9"
    by simp_all
  have inv: "invariant g s"
    using reach_invariant [OF r] by simp
  show ?thesis
    using slot_count [OF inv b] slots_nonneg [OF inv b] slot_zero_iff [OF inv b]
    by (simp only: peers_holding_empty_iff [OF invariantD(1) [OF inv]])
qed

theorem constraint_count_meaning_witness:
  "constraints after_first_commit 0 2 0 = 2 \<and> constraints after_first_commit 2 2 0 = 1
   \<and> constraints after_first_commit 4 4 0 = 0 \<and> constraints after_first_commit 0 0 5 = 1"
proof -
  note m = constraint_count_meaning [OF after_first_commit_reach(2)]
  have h1: "holders first_commit_grid 0 2 0 (\<lambda>q. fst q = 0) = [(0, 0)]"
    "holders first_commit_grid 0 2 0 (\<lambda>q. snd q = 2) = []"
    "holders first_commit_grid 0 2 0 (\<lambda>q. same_box q (0, 2)) = [(0, 0)]"
    by code_simp+
  have h2: "holders first_commit_grid 2 2 0 (\<lambda>q. fst q = 2) = []"
    "holders first_commit_grid 2 2 0 (\<lambda>q. snd q = 2) = []"
    "holders first_commit_grid 2 2 0 (\<lambda>q. same_box q (2, 2)) = [(0, 0)]"
    by code_simp+
  have h3: "holders first_commit_grid 4 4 0 (\<lambda>q. fst q = 4) = []"
    "holders first_commit_grid 4 4 0 (\<lambda>q. snd q = 4) = []"
    "holders first_commit_grid 4 4 0 (\<lambda>q. same_box q (4, 4)) = []"
    by code_simp+
  have h4: "holders first_commit_grid 0 0 5 (\<lambda>q. fst q = 0) = []"
    "holders first_commit_grid 0 0 5 (\<lambda>q. snd q = 0) = []"
    "holders first_commit_grid 0 0 5 (\<lambda>q. same_box q (0, 0)) = []"
    by code_simp+
  have g: "first_commit_grid (0, 2) = None" "first_commit_grid (2, 2) = None"
    "first_commit_grid (4, 4) = None" "first_commit_grid (0, 0) = Some 0"
    by (simp_all add: first_commit_grid_def)
  from m [of 0 2 0] have "constraints after_first_commit 0 2 0 = 2"
    by (simp add: h1 g)
  moreover from m [of 2 2 0] have "constraints after_first_commit 2 2 0 = 1"
    by (simp add: h2 g)
  moreover from m [of 4 4 0] have "constraints after_first_commit 4 4 0 = 0"
    by (simp add: h3 g)
  moreover from m [of 0 0 5] have "constraints after_first_commit 0 0 5 = 1"
    by (simp add: h4 g)
  ultimately show ?thesis
    by simp
qed



text \<open>
  C7. When some cell is uncommitted, \<open>get_most_constrained_cell\<close> returns an
  uncommitted cell together with its full candidate list; no uncommitted cell has fewer
  candidates, and every uncommitted cell with as many comes no earlier in row-major
  order.
\<close>

theorem most_constrained_cell_minimal:
  "i0 < N \<Longrightarrow> j0 < N \<Longrightarrow> inserted s i0 j0 = 0 \<Longrightarrow>
   \<exists>row col. get_most_constrained_cell s = Inr (row, col, get_possibilities_at s row col)
     \<and> get_possibilities_at s row col = filter (\<lambda>n. constraints s row col n = 0) [0..<N]
     \<and> row < N \<and> col < N \<and> inserted s row col = 0
     \<and> (\<forall>i<N. \<forall>j<N. inserted s i j = 0 \<longrightarrow>
           length (get_possibilities_at s row col) \<le> length (get_possibilities_at s i j)
           \<and> (length (get_possibilities_at s i j) = length (get_possibilities_at s row col)
                \<longrightarrow> row < i \<or> (row = i \<and> col \<le> j)))"
proof -
  assume a: "i0 < N" "j0 < N" "inserted s i0 j0 = 0"
  then have "(i0, j0) \<in> set cells" and "uncommitted s (i0, j0)"
    by (simp_all add: uncommitted_def)
  from get_most_constrained_cell_result [OF this]
  obtain row col where sel:
      "get_most_constrained_cell s = Inr (row, col, get_possibilities_at s row col)"
      "(row, col) \<in> set cells" "uncommitted s (row, col)"
      "\<forall>q \<in> set cells. uncommitted s q \<longrightarrow>
         poss_count_at s (row, col) \<le> poss_count_at s q
         \<and> (poss_count_at s q = poss_count_at s (row, col) \<longrightarrow>
              (row, col) = q \<or> scanned_before (row, col) q)"
    by blast
  have "length (get_possibilities_at s row col) \<le> length (get_possibilities_at s i j)
        \<and> (length (get_possibilities_at s i j) = length (get_possibilities_at s row col)
             \<longrightarrow> row < i \<or> (row = i \<and> col \<le> j))"
    if "i < N" and "j < N" and "inserted s i j = 0" for i j
  proof -
    have "(i, j) \<in> set cells" and "uncommitted s (i, j)"
      using that by (simp_all add: uncommitted_def)
    with sel(4) have "poss_count_at s (row, col) \<le> poss_count_at s (i, j)
         \<and> (poss_count_at s (i, j) = poss_count_at s (row, col) \<longrightarrow>
              (row, col) = (i, j) \<or> scanned_before (row, col) (i, j))"
      by blast
    then show ?thesis
      by (auto simp add: poss_count_at_def scanned_before_def)
  qed
  then show ?thesis
    using sel(1-3) by (auto simp add: uncommitted_def get_possibilities_at_eq)
qed

theorem most_constrained_cell_minimal_witness:
  "get_most_constrained_cell new_sudoku = Inr (0, 0, [0, 1, 2, 3, 4, 5, 6, 7, 8])"
proof -
  have upt: "[0..<9] = [0, 1, 2, 3, 4, 5, 6, 7, 8 :: nat]"
    by code_simp
  have all: "get_possibilities_at new_sudoku i j = [0, 1, 2, 3, 4, 5, 6, 7, 8]" for i j
    by (simp add: get_possibilities_at_eq new_sudoku_def upt)
  have "inserted new_sudoku 0 0 = 0"
    by (simp add: new_sudoku_def)
  from most_constrained_cell_minimal [of 0 0 new_sudoku] this
  obtain row col where sel:
      "get_most_constrained_cell new_sudoku = Inr (row, col, get_possibilities_at new_sudoku row col)"
      "\<forall>i<N. \<forall>j<N. inserted new_sudoku i j = 0 \<longrightarrow>
           length (get_possibilities_at new_sudoku row col)
             \<le> length (get_possibilities_at new_sudoku i j)
           \<and> (length (get_possibilities_at new_sudoku i j)
                = length (get_possibilities_at new_sudoku row col)
                \<longrightarrow> row < i \<or> (row = i \<and> col \<le> j))"
    by auto
  have ins: "inserted new_sudoku i j = 0" for i j
    by (simp add: new_sudoku_def)
  from sel(2) have "\<forall>i<N. \<forall>j<N. row < i \<or> (row = i \<and> col \<le> j)"
    by (simp add: all ins)
  from this [rule_format, of 0 0] have "row = 0 \<and> col = 0"
    by simp
  with sel(1) show ?thesis
    by (simp add: all)
qed

text \<open>
  C8. Every reachable state satisfies the invariant, and on every state that satisfies
  the invariant \<open>solve\<close> returns, with 0 or 1 and without a failed assertion, as soon
  as the nesting of its recursive calls may reach the number of uncommitted cells, which
  is at most \<open>N * N = 81\<close>; a larger bound does not change the result. A frame makes
  its nested calls only on states that have exactly one more committed cell than the
  state it was entered with and that satisfy the invariant again. So the statement
  holds for every frame of the search, also for those entered after a dead end has
  raised \<open>nbacktracks\<close>: one commit for each frame.
\<close>

theorem solve_terminates:
  "(reach g s \<longrightarrow> invariant g s)
   \<and> (invariant g s \<longrightarrow>
        0 \<le> ninserted s \<and> ninserted s \<le> int (N * N)
        \<and> (\<forall>depth \<ge> nat (int (N * N) - ninserted s).
              \<exists>b s'. solve depth s = Some (Inr (b, s')) \<and> (b = 0 \<or> b = 1)
                     \<and> solve (N * N) s = Some (Inr (b, s')))
        \<and> (\<forall>depth. solve (Suc depth) s =
              solve_body (\<lambda>t. if ninserted t = ninserted s + 1 \<and> (\<exists>g'. invariant g' t)
                             then solve depth t else None) s))"
proof (intro conjI impI)
  assume "reach g s"
  then show "invariant g s"
    using reach_invariant by simp
next
  assume inv: "invariant g s"
  have n: "ninserted s = int (card (dom g))" and le: "card (dom g) \<le> 81"
    using invariantD(4) [OF inv] card_dom_le [OF invariantD(1) [OF inv]] by simp_all
  let ?need = "81 - card (dom g)"
  have need: "nat (int (N * N) - ninserted s) = ?need"
    using n le by simp
  have "outcome_ok g s (solve ?need s)"
    using inv by (rule solve_ok) simp
  then obtain b s' where res: "solve ?need s = Some (Inr (b, s'))" "b = 0 \<or> b = 1"
    by (cases rule: outcome_okD) auto
  have "solve depth s = Some (Inr (b, s'))" if "?need \<le> depth" for depth
    using res(1) that by (rule solve_mono)
  then show "\<forall>depth \<ge> nat (int (N * N) - ninserted s).
         \<exists>b s'. solve depth s = Some (Inr (b, s')) \<and> (b = 0 \<or> b = 1)
                \<and> solve (N * N) s = Some (Inr (b, s'))"
    using le res(2) unfolding need by simp
  show "0 \<le> ninserted s" and "ninserted s \<le> int (N * N)"
    using n le by simp_all
  show "\<forall>depth. solve (Suc depth) s =
          solve_body (\<lambda>t. if ninserted t = ninserted s + 1 \<and> (\<exists>g'. invariant g' t)
                         then solve depth t else None) s"
    using solve_frame [OF inv] by blast
qed

theorem solve_terminates_witness:
  "(\<exists>b s'. solve 81 new_sudoku = Some (Inr (b, s')) \<and> (b = 0 \<or> b = 1))
   \<and> (\<exists>b s'. solve 81 (new_sudoku\<lparr>nbacktracks := 5\<rparr>) = Some (Inr (b, s'))
              \<and> (b = 0 \<or> b = 1))"
proof -
  have n: "ninserted new_sudoku = 0"
    by (simp add: new_sudoku_def)
  have inv: "invariant (\<lambda>p. None) new_sudoku"
    using solve_terminates [of "\<lambda>p. None" new_sudoku] reach_new by blast
  then have inv5: "invariant (\<lambda>p. None) (new_sudoku\<lparr>nbacktracks := 5\<rparr>)"
    by simp
  from solve_terminates [of "\<lambda>p. None" new_sudoku] inv
  have "\<forall>depth \<ge> nat (int (N * N) - ninserted new_sudoku).
          \<exists>b s'. solve depth new_sudoku = Some (Inr (b, s')) \<and> (b = 0 \<or> b = 1)
                 \<and> solve (N * N) new_sudoku = Some (Inr (b, s'))"
    by blast
  then have "\<forall>depth \<ge> 81. \<exists>b s'. solve depth new_sudoku = Some (Inr (b, s')) \<and> (b = 0 \<or> b = 1)"
    by (simp add: n) blast
  from this [rule_format, of 81]
  have first: "\<exists>b s'. solve 81 new_sudoku = Some (Inr (b, s')) \<and> (b = 0 \<or> b = 1)"
    by simp
  let ?s = "new_sudoku\<lparr>nbacktracks := 5\<rparr>"
  from solve_terminates [of "\<lambda>p. None" ?s] inv5
  have "\<forall>depth \<ge> nat (int (N * N) - ninserted ?s).
          \<exists>b s'. solve depth ?s = Some (Inr (b, s')) \<and> (b = 0 \<or> b = 1)
                 \<and> solve (N * N) ?s = Some (Inr (b, s'))"
    by blast
  then have "\<forall>depth \<ge> 81. \<exists>b s'. solve depth ?s = Some (Inr (b, s')) \<and> (b = 0 \<or> b = 1)"
    by (simp add: n) blast
  from this [rule_format, of 81]
  have "\<exists>b s'. solve 81 ?s = Some (Inr (b, s')) \<and> (b = 0 \<or> b = 1)"
    by simp
  with first show ?thesis
    by blast
qed

text \<open>
  C9. When \<open>solve\<close> returns 0 on a reachable state, the state it leaves has the flags,
  the counters and \<open>ninserted\<close> of the state at entry; only \<open>nbacktracks\<close> may differ.
  On the example grid the search commits \<open>7\<close> at \<open>(0, 7)\<close>, meets a dead end at
  \<open>(0, 8)\<close> in the nested call, retracts and returns 0.
\<close>

theorem solve_failure_restores:
  "reach g s \<Longrightarrow> solve depth s = Some (Inr (0, s')) \<Longrightarrow>
   constraints s' = constraints s \<and> inserted s' = inserted s \<and> ninserted s' = ninserted s"
proof -
  assume r: "reach g s" and res: "solve depth s = Some (Inr (0, s'))"
  have res': "solve (max depth 81) s = Some (Inr (0, s'))"
    using res by (rule solve_mono) simp
  have "outcome_ok g s (solve (max depth 81) s)"
    using r by (intro solve_result) simp_all
  then show ?thesis
  proof (cases rule: outcome_okD)
    case (1 t h)
    with res' show ?thesis
      by simp
  next
    case (2 k)
    with res' have "s' = s\<lparr>nbacktracks := k\<rparr>"
      by simp
    then show ?thesis
      by simp
  qed
qed

theorem solve_failure_restores_witness:
  "\<exists>s s'. reach backtrack_grid s \<and> solve 0 s = None
          \<and> solve (Suc 0) s = Some (Inr (0, s'))
          \<and> constraints s' = constraints s \<and> inserted s' = inserted s
          \<and> ninserted s' = ninserted s \<and> nbacktracks s' = nbacktracks s + 1"
proof -
  obtain s where s: "reach backtrack_grid s"
    using backtrack_reach by blast
  have inv: "invariant backtrack_grid s"
    using reach_invariant [OF s] by simp
  note res = backtrack_solve [OF inv]
  from solve_failure_restores [OF s res(2)] s res show ?thesis
    by auto
qed

text \<open>
  C10. In a reachable state, a cell committed with \<open>v\<close> has its flag set, its slot for
  \<open>v\<close> is zero and its slot for every other value is at least 1, so
  \<open>get_possibilities_at\<close> returns the single possibility \<open>v\<close>.
\<close>

theorem committed_cell_possibilities:
  "reach g s \<Longrightarrow> g (row, col) = Some v \<Longrightarrow>
   inserted s row col = 1 \<and> get_possibilities_at s row col = [v]
   \<and> constraints s row col v = 0 \<and> (\<forall>n<N. n \<noteq> v \<longrightarrow> 1 \<le> constraints s row col n)"
proof -
  assume r: "reach g s" and held: "g (row, col) = Some v"
  have inv: "invariant g s"
    using reach_invariant [OF r] by simp
  have b: "row < 9" "col < 9" "v < 9"
    using wf_gridD [OF invariantD(1) [OF inv] held] by simp_all
  have "1 \<le> constraints s row col n" if "n < 9" and "n \<noteq> v" for n
    using committed_slot_zero_iff [OF inv held that(1)] slots_nonneg [OF inv b(1,2) that(1)] that(2)
    by simp
  moreover have "constraints s row col v = 0"
    using committed_slot_zero_iff [OF inv held b(3)] by simp
  moreover have "inserted s row col = 1"
    using invariantD(3) [OF inv b(1,2)] held by simp
  ultimately show ?thesis
    using committed_possibilities [OF inv held] by simp
qed

theorem committed_cell_possibilities_witness:
  "get_possibilities_at after_first_commit 0 0 = [0]
   \<and> constraints after_first_commit 0 0 0 = 0 \<and> 1 \<le> constraints after_first_commit 0 0 5"
  using committed_cell_possibilities [OF after_first_commit_reach(2), of 0 0 0]
  by (simp add: first_commit_grid_def)

end
